theory Spec2Isabelle
  imports Main "HOL-Library.List_Lexorder" "HOL-Library.Multiset"
begin

section \<open>Strings\<close>

text \<open>
  A Python \<open>str\<close> is a sequence of Unicode code points: \<open>len\<close> counts code points,
  indexing yields one code point, and \<open><\<close> compares code point by code point with a proper
  prefix being smaller.  A string is therefore a list of code points, ordered
  lexicographically.
\<close>

type_synonym ustr = "nat list"

text \<open>ASCII text of the f-string messages.\<close>

definition ascii :: "string \<Rightarrow> ustr" where
  "ascii s = map of_char s"

text \<open>\<open>f"'{s}'"\<close>: the string between two apostrophes (code point 39).\<close>

definition quoted :: "ustr \<Rightarrow> ustr" where
  "quoted s = [39] @ s @ [39]"

text \<open>
  \<open>str.replace(old, new)\<close>: all non-overlapping occurrences, scanning from the left.
  With an empty \<open>old\<close> Python puts \<open>new\<close> before every character and at the end.
\<close>

function str_replace :: "ustr \<Rightarrow> ustr \<Rightarrow> ustr \<Rightarrow> ustr" where
  "str_replace [] old new = (if old = [] then new else [])"
| "str_replace (c # cs) old new =
     (if old = [] then new @ c # str_replace cs old new
      else if take (length old) (c # cs) = old
        then new @ str_replace (drop (length old) (c # cs)) old new
      else c # str_replace cs old new)"
  by pat_completeness auto
termination
  by (relation "measure (\<lambda>(s, old, new). length s)") auto

section \<open>morphology.py: MorphologicalEngine\<close>

definition WEAK_LETTERS :: "nat list" where
  "WEAK_LETTERS = [0x648, 0x64A]"

definition EMPHATIC :: "nat list" where
  "EMPHATIC = [0x635, 0x636, 0x637, 0x638]"

definition DENTAL :: "nat list" where
  "DENTAL = [0x62F, 0x630, 0x632]"

definition LABIAL :: "nat list" where
  "LABIAL = [0x628, 0x645]"

datatype weakness = Assimilated | Hollow | Defective | Doubled | Sound

datatype position = NoPosition | At nat | AtPair nat nat

fun is_weak_root :: "ustr \<Rightarrow> weakness \<times> position" where
  "is_weak_root [c1, c2, c3] =
     (if c1 \<in> set WEAK_LETTERS then (Assimilated, At 0)
      else if c2 \<in> set WEAK_LETTERS then (Hollow, At 1)
      else if c3 \<in> set WEAK_LETTERS then (Defective, At 2)
      else if c2 = c3 then (Doubled, AtPair 1 2)
      else (Sound, NoPosition))"
| "is_weak_root root = (Sound, NoPosition)"

fun apply_form8_assimilation :: "ustr \<Rightarrow> ustr \<Rightarrow> ustr" where
  "apply_form8_assimilation word [c1, c2, c3] =
     (if c1 \<in> set EMPHATIC then str_replace word [c1, 0x62A] [c1, 0x637]
      else if c1 \<in> set DENTAL then str_replace word [c1, 0x62A] [c1, 0x651]
      else if c1 = 0x62B then str_replace word [0x62B, 0x62A] [0x62B, 0x651]
      else word)"
| "apply_form8_assimilation word root = word"

fun apply_form7_assimilation :: "ustr \<Rightarrow> ustr \<Rightarrow> ustr" where
  "apply_form7_assimilation word [c1, c2, c3] =
     (if c1 \<in> set LABIAL then str_replace word [0x646, c1] [0x645, c1] else word)"
| "apply_form7_assimilation word root = word"

fun apply_hollow_root_rules :: "ustr \<Rightarrow> ustr \<Rightarrow> ustr" where
  "apply_hollow_root_rules word [c1, c2, c3] =
     (if c2 \<in> set WEAK_LETTERS then
        (if c2 = 0x648 then
           (let word = str_replace word [c1, 0x64E, 0x648] [c1, 0x64E, 0x627];
                word = str_replace word [c1, 0x64F, 0x648] [c1, 0x64F, 0x648];
                word = str_replace word [c1, 0x650, 0x648] [c1, 0x650, 0x64A]
            in word)
         else if c2 = 0x64A then
           (let word = str_replace word [c1, 0x64E, 0x64A] [c1, 0x64E, 0x627];
                word = str_replace word [c1, 0x650, 0x64A] [c1, 0x650, 0x64A];
                word = str_replace word [c1, 0x64F, 0x64A] [c1, 0x64F, 0x648]
            in word)
         else word)
      else word)"
| "apply_hollow_root_rules word root = word"

fun apply_defective_root_rules :: "ustr \<Rightarrow> ustr \<Rightarrow> ustr" where
  "apply_defective_root_rules word [c1, c2, c3] =
     (if c3 \<in> set WEAK_LETTERS then
        (if word \<noteq> [] \<and> last word = c3 then butlast word @ [0x649] else word)
      else word)"
| "apply_defective_root_rules word root = word"

definition apply_phonological_rules :: "ustr \<Rightarrow> ustr \<Rightarrow> ustr \<Rightarrow> ustr" where
  "apply_phonological_rules word root pattern =
     (if length root \<noteq> 3 then word
      else
        let (weakness_type, position) = is_weak_root root;
            word = (if weakness_type = Hollow then apply_hollow_root_rules word root
                    else if weakness_type = Defective then apply_defective_root_rules word root
                    else word);
            word = apply_form8_assimilation word root;
            word = apply_form7_assimilation word root;
            word = str_replace word [0x651, 0x651] [0x651]
        in word)"

text \<open>
  The \<open>while i < len(pattern)\<close> loop of \<open>apply_root_to_pattern\<close>: one pattern character
  per step, appended to \<open>result\<close> after the marker substitution.
\<close>

fun substitute_loop :: "nat \<Rightarrow> nat \<Rightarrow> nat \<Rightarrow> ustr \<Rightarrow> ustr \<Rightarrow> ustr" where
  "substitute_loop fa ayn lam [] result = result"
| "substitute_loop fa ayn lam (char # rest) result =
     substitute_loop fa ayn lam rest
       (if char = 0x641 then result @ [fa]
        else if char = 0x639 then result @ [ayn]
        else if char = 0x644 then result @ [lam]
        else if char = 49 then result @ [fa]
        else if char = 50 then result @ [ayn]
        else if char = 51 then result @ [lam]
        else if char = 70 then result @ [fa]
        else if char = 65 then result @ [ayn]
        else if char = 76 then result @ [lam]
        else result @ [char])"

fun apply_root_to_pattern :: "ustr \<Rightarrow> ustr \<Rightarrow> ustr" where
  "apply_root_to_pattern [fa, ayn, lam] pattern =
     apply_phonological_rules (substitute_loop fa ayn lam pattern []) [fa, ayn, lam] pattern"
| "apply_root_to_pattern root pattern = []"

text \<open>The \<open>for template in all_patterns\<close> loop of \<open>validate_word\<close>.\<close>

fun validate_loop :: "ustr \<Rightarrow> ustr \<Rightarrow> ustr list \<Rightarrow> bool \<times> ustr option" where
  "validate_loop word root [] = (False, None)"
| "validate_loop word root (template # rest) =
     (if apply_root_to_pattern root template = word then (True, Some template)
      else validate_loop word root rest)"

definition validate_word :: "ustr \<Rightarrow> ustr \<Rightarrow> ustr list \<Rightarrow> bool \<times> ustr option" where
  "validate_word word root all_patterns =
     (if length root \<noteq> 3 then (False, None) else validate_loop word root all_patterns)"

text \<open>
  The loop of \<open>generate_derivatives\<close>; each dictionary
  \<open>{"template": t, "generated_word": w}\<close> is the pair \<open>(t, w)\<close>.
\<close>

fun derivatives_loop :: "ustr \<Rightarrow> ustr list \<Rightarrow> (ustr \<times> ustr) list \<Rightarrow> (ustr \<times> ustr) list" where
  "derivatives_loop root [] derivatives = derivatives"
| "derivatives_loop root (template # rest) derivatives =
     derivatives_loop root rest
       (let generated_word = apply_root_to_pattern root template
        in if generated_word \<noteq> [] then derivatives @ [(template, generated_word)]
           else derivatives)"

definition generate_derivatives :: "ustr \<Rightarrow> ustr list \<Rightarrow> (ustr \<times> ustr) list" where
  "generate_derivatives root all_patterns =
     (if length root \<noteq> 3 then [] else derivatives_loop root all_patterns [])"

section \<open>Python failures\<close>

text \<open>
  The exceptions the modelled code can raise: an attribute read on \<open>None\<close>, a list index
  out of range, and \<open>%\<close> by zero.  A function that can raise returns \<open>py_error + 'a\<close>.
\<close>

datatype py_error = AttributeError | IndexError | ZeroDivisionError

text \<open>
  The position an index denotes in a Python list of \<open>n\<close> elements: \<open>i\<close> itself from the
  front, \<open>n + i\<close> for a negative \<open>i\<close> counted from the end, none outside \<open>-n .. n - 1\<close>.
\<close>

definition py_index :: "nat \<Rightarrow> int \<Rightarrow> nat option" where
  "py_index n i =
     (if 0 \<le> i \<and> i < int n then Some (nat i)
      else if i < 0 \<and> - int n \<le> i then Some (nat (int n + i))
      else None)"

text \<open>\<open>xs[i]\<close> and \<open>xs[i] = v\<close>; both raise IndexError outside the list.\<close>

definition list_get :: "'a list \<Rightarrow> int \<Rightarrow> py_error + 'a" where
  "list_get xs i =
     (case py_index (length xs) i of None \<Rightarrow> Inl IndexError | Some k \<Rightarrow> Inr (xs ! k))"

definition list_set :: "'a list \<Rightarrow> int \<Rightarrow> 'a \<Rightarrow> py_error + 'a list" where
  "list_set xs i v =
     (case py_index (length xs) i of None \<Rightarrow> Inl IndexError | Some k \<Rightarrow> Inr (xs[k := v]))"

section \<open>hashtable.py: HashTable\<close>

text \<open>
  A \<open>HashEntry\<close> holds a template and a hash value; its \<open>next\<close> link is the rest of the
  chain, so a bucket is the list of its entries from the head on, and \<open>None\<close> is the empty
  list.
\<close>

record HashEntry =
  template :: ustr
  hash_value :: int

record HashTable =
  ht_size :: int
  ht_table :: "HashEntry list list"
  ht_count :: int
  ht_prime :: int
  ht_mod :: int

text \<open>\<open>HashTable(initial_size)\<close>; \<open>[None] * n\<close> is empty for \<open>n \<le> 0\<close>.\<close>

definition HashTable_init :: "int \<Rightarrow> HashTable" where
  "HashTable_init initial_size =
     \<lparr>ht_size = initial_size, ht_table = replicate (nat initial_size) [],
      ht_count = 0, ht_prime = 31, ht_mod = 10 ^ 9 + 7\<rparr>"

text \<open>The \<open>for char in template\<close> loop of \<open>_polynomial_hash\<close>.\<close>

fun hash_loop :: "int \<Rightarrow> int \<Rightarrow> ustr \<Rightarrow> int \<Rightarrow> py_error + int" where
  "hash_loop p m [] hv = Inr hv"
| "hash_loop p m (char # rest) hv =
     (if m = 0 then Inl ZeroDivisionError
      else hash_loop p m rest ((hv * p + int char) mod m))"

definition polynomial_hash :: "HashTable \<Rightarrow> ustr \<Rightarrow> py_error + int" where
  "polynomial_hash ht t =
     (case hash_loop (ht_prime ht) (ht_mod ht) t 0 of
        Inl e \<Rightarrow> Inl e
      | Inr hv \<Rightarrow> if ht_size ht = 0 then Inl ZeroDivisionError else Inr (hv mod ht_size ht))"

definition compute_full_hash :: "HashTable \<Rightarrow> ustr \<Rightarrow> py_error + int" where
  "compute_full_hash ht t = polynomial_hash ht t"

text \<open>The \<open>while current\<close> scan of \<open>exists\<close> along one chain.\<close>

fun chain_exists :: "HashEntry list \<Rightarrow> ustr \<Rightarrow> bool" where
  "chain_exists [] t = False"
| "chain_exists (current # rest) t =
     (if template current = t then True else chain_exists rest t)"

definition ht_exists :: "HashTable \<Rightarrow> ustr \<Rightarrow> py_error + bool" where
  "ht_exists ht t =
     (case polynomial_hash ht t of
        Inl e \<Rightarrow> Inl e
      | Inr hash_index \<Rightarrow>
          (case list_get (ht_table ht) hash_index of
             Inl e \<Rightarrow> Inl e
           | Inr current \<Rightarrow> Inr (chain_exists current t)))"

definition ht_get :: "HashTable \<Rightarrow> ustr \<Rightarrow> py_error + bool" where
  "ht_get ht t = ht_exists ht t"

definition ht_put :: "HashTable \<Rightarrow> ustr \<Rightarrow> py_error + (HashTable \<times> bool \<times> ustr)" where
  "ht_put ht t =
     (case ht_exists ht t of
        Inl e \<Rightarrow> Inl e
      | Inr True \<Rightarrow> Inr (ht, False, ascii ''Pattern '' @ quoted t @ ascii '' already exists'')
      | Inr False \<Rightarrow>
          (case polynomial_hash ht t of
             Inl e \<Rightarrow> Inl e
           | Inr hash_index \<Rightarrow>
               (case compute_full_hash ht t of
                  Inl e \<Rightarrow> Inl e
                | Inr hv \<Rightarrow>
                    (case list_get (ht_table ht) hash_index of
                       Inl e \<Rightarrow> Inl e
                     | Inr head \<Rightarrow>
                         (case list_set (ht_table ht) hash_index
                                 (\<lparr>template = t, hash_value = hv\<rparr> # head) of
                            Inl e \<Rightarrow> Inl e
                          | Inr table' \<Rightarrow>
                              Inr (ht\<lparr>ht_table := table', ht_count := ht_count ht + 1\<rparr>,
                                   True,
                                   ascii ''Pattern '' @ quoted t
                                     @ ascii '' inserted successfully''))))))"

text \<open>
  The \<open>while current\<close> loop of \<open>delete\<close> along one chain: the first entry with the
  template is unlinked; \<open>None\<close> when the chain has no such entry.
\<close>

fun chain_delete :: "HashEntry list \<Rightarrow> ustr \<Rightarrow> HashEntry list option" where
  "chain_delete [] t = None"
| "chain_delete (current # rest) t =
     (if template current = t then Some rest
      else (case chain_delete rest t of None \<Rightarrow> None | Some rest' \<Rightarrow> Some (current # rest')))"

definition ht_delete :: "HashTable \<Rightarrow> ustr \<Rightarrow> py_error + (HashTable \<times> bool \<times> ustr)" where
  "ht_delete ht t =
     (case polynomial_hash ht t of
        Inl e \<Rightarrow> Inl e
      | Inr hash_index \<Rightarrow>
          (case list_get (ht_table ht) hash_index of
             Inl e \<Rightarrow> Inl e
           | Inr current \<Rightarrow>
               (case chain_delete current t of
                  None \<Rightarrow> Inr (ht, False, ascii ''Pattern '' @ quoted t @ ascii '' not found'')
                | Some chain' \<Rightarrow>
                    (case list_set (ht_table ht) hash_index chain' of
                       Inl e \<Rightarrow> Inl e
                     | Inr table' \<Rightarrow>
                         Inr (ht\<lparr>ht_table := table', ht_count := ht_count ht - 1\<rparr>,
                              True,
                              ascii ''Pattern '' @ quoted t
                                @ ascii '' deleted successfully'')))))"

definition ht_update :: "HashTable \<Rightarrow> ustr \<Rightarrow> ustr \<Rightarrow> py_error + (HashTable \<times> bool \<times> ustr)" where
  "ht_update ht old_template new_template =
     (case ht_exists ht old_template of
        Inl e \<Rightarrow> Inl e
      | Inr False \<Rightarrow>
          Inr (ht, False, ascii ''Pattern '' @ quoted old_template @ ascii '' not found'')
      | Inr True \<Rightarrow>
          (case (if old_template \<noteq> new_template then ht_exists ht new_template else Inr False) of
             Inl e \<Rightarrow> Inl e
           | Inr True \<Rightarrow>
               Inr (ht, False,
                    ascii ''Pattern '' @ quoted new_template @ ascii '' already exists'')
           | Inr False \<Rightarrow>
               (case ht_delete ht old_template of
                  Inl e \<Rightarrow> Inl e
                | Inr (ht1, success, m) \<Rightarrow>
                    if success then
                      (case ht_put ht1 new_template of
                         Inl e \<Rightarrow> Inl e
                       | Inr (ht2, r) \<Rightarrow>
                           Inr (ht2, True,
                                ascii ''Pattern updated from '' @ quoted old_template
                                  @ ascii '' to '' @ quoted new_template))
                    else Inr (ht1, False, ascii ''Failed to update pattern''))))"

text \<open>
  \<open>get_all_patterns\<close>: the templates of all chains in bucket order, then sorted.
\<close>

definition get_all_patterns :: "HashTable \<Rightarrow> ustr list" where
  "get_all_patterns ht = sort (map template (concat (ht_table ht)))"

definition get_size :: "HashTable \<Rightarrow> int" where
  "get_size ht = ht_count ht"

text \<open>
  A caller's use of one table: a sequence of \<open>put\<close>, \<open>delete\<close> and \<open>update\<close> calls, each
  on the table the previous call left; a raised exception ends the run.
\<close>

datatype ht_op = Put ustr | Delete ustr | Update ustr ustr

fun ht_apply :: "HashTable \<Rightarrow> ht_op \<Rightarrow> py_error + HashTable" where
  "ht_apply ht (Put t) = (case ht_put ht t of Inl e \<Rightarrow> Inl e | Inr (ht', r) \<Rightarrow> Inr ht')"
| "ht_apply ht (Delete t) = (case ht_delete ht t of Inl e \<Rightarrow> Inl e | Inr (ht', r) \<Rightarrow> Inr ht')"
| "ht_apply ht (Update t u) =
     (case ht_update ht t u of Inl e \<Rightarrow> Inl e | Inr (ht', r) \<Rightarrow> Inr ht')"

fun ht_run :: "HashTable \<Rightarrow> ht_op list \<Rightarrow> py_error + HashTable" where
  "ht_run ht [] = Inr ht"
| "ht_run ht (x # xs) = (case ht_apply ht x of Inl e \<Rightarrow> Inl e | Inr ht' \<Rightarrow> ht_run ht' xs)"

section \<open>avl.py: AVLNode and AVLTree\<close>

text \<open>
  The \<open>derived_words\<close> dictionary of a node: word, template and frequency, in insertion
  order.  An \<open>Optional[AVLNode]\<close> is a \<open>node\<close>: \<open>NoNode\<close> for \<open>None\<close>, otherwise the fields
  \<open>root\<close>, \<open>left\<close>, \<open>right\<close>, \<open>height\<close>, \<open>derived_words\<close> in the order of \<open>__init__\<close>.  Each
  subtree is owned by its parent alone, so updating a node in place is building the
  updated node.
\<close>

type_synonym derived = "(ustr \<times> ustr \<times> nat) list"

datatype node = NoNode | AVLNode ustr node node int derived

record AVLTree =
  avl_root :: node
  avl_size :: int

definition AVLTree_init :: AVLTree where
  "AVLTree_init = \<lparr>avl_root = NoNode, avl_size = 0\<rparr>"

fun get_height :: "node \<Rightarrow> int" where
  "get_height NoNode = 0"
| "get_height (AVLNode k l r h d) = h"

fun get_balance_factor :: "node \<Rightarrow> int" where
  "get_balance_factor NoNode = 0"
| "get_balance_factor (AVLNode k l r h d) = get_height l - get_height r"

text \<open>
  The rotations read \<open>left_child.right\<close> and \<open>right_child.left\<close>: on a node without that
  child Python raises AttributeError.
\<close>

fun rotate_right :: "node \<Rightarrow> py_error + node" where
  "rotate_right (AVLNode k (AVLNode lk ll lr lh ld) r h d) =
     (let lowered = AVLNode k lr r (1 + max (get_height lr) (get_height r)) d
      in Inr (AVLNode lk ll lowered (1 + max (get_height ll) (get_height lowered)) ld))"
| "rotate_right (AVLNode k NoNode r h d) = Inl AttributeError"
| "rotate_right NoNode = Inl AttributeError"

fun rotate_left :: "node \<Rightarrow> py_error + node" where
  "rotate_left (AVLNode k l (AVLNode rk rl rr rh rd) h d) =
     (let lowered = AVLNode k l rl (1 + max (get_height l) (get_height rl)) d
      in Inr (AVLNode rk lowered rr (1 + max (get_height lowered) (get_height rr)) rd))"
| "rotate_left (AVLNode k l NoNode h d) = Inl AttributeError"
| "rotate_left NoNode = Inl AttributeError"

text \<open>
  The tail of \<open>_insert_recursive\<close> (height update, balance factor, the four rotation
  cases), run on the node with key \<open>k\<close>, children \<open>l\<close> and \<open>r\<close> and dictionary \<open>d\<close> after the
  descent.  The source tests Left-Left, Right-Right, Left-Right, Right-Left in this order;
  a balance factor above 1 excludes the two right cases and one below -1 the two left
  cases, so the cases are grouped by the sign of the imbalance.  \<open>node.left.root\<close> is read
  only when the balance factor is above 1, \<open>node.right.root\<close> only when it is below -1.
\<close>

definition insert_rebalance :: "ustr \<Rightarrow> node \<Rightarrow> node \<Rightarrow> derived \<Rightarrow> ustr \<Rightarrow> py_error + node" where
  "insert_rebalance k l r d root =
     (let hh = 1 + max (get_height l) (get_height r);
          balance_factor = get_height l - get_height r
      in if balance_factor > 1 then
           (case l of
              NoNode \<Rightarrow> Inl AttributeError
            | AVLNode lk ll lr lh ld \<Rightarrow>
                if root < lk then rotate_right (AVLNode k l r hh d)
                else if root > lk then
                  (case rotate_left l of
                     Inl e \<Rightarrow> Inl e
                   | Inr l' \<Rightarrow> rotate_right (AVLNode k l' r hh d))
                else Inr (AVLNode k l r hh d))
         else if balance_factor < - 1 then
           (case r of
              NoNode \<Rightarrow> Inl AttributeError
            | AVLNode rk rl rr rh rd \<Rightarrow>
                if root > rk then rotate_left (AVLNode k l r hh d)
                else if root < rk then
                  (case rotate_right r of
                     Inl e \<Rightarrow> Inl e
                   | Inr r' \<Rightarrow> rotate_left (AVLNode k l r' hh d))
                else Inr (AVLNode k l r hh d))
         else Inr (AVLNode k l r hh d))"

text \<open>
  \<open>_insert_recursive\<close> with \<open>self.size\<close> passed in and returned: a new node counts one
  more, an equal key returns the node as it is.
\<close>

fun insert_recursive :: "node \<Rightarrow> ustr \<Rightarrow> int \<Rightarrow> py_error + (node \<times> int)" where
  "insert_recursive NoNode root sz = Inr (AVLNode root NoNode NoNode 1 [], sz + 1)"
| "insert_recursive (AVLNode k l r h d) root sz =
     (if root < k then
        (case insert_recursive l root sz of
           Inl e \<Rightarrow> Inl e
         | Inr (l', sz') \<Rightarrow>
             (case insert_rebalance k l' r d root of
                Inl e \<Rightarrow> Inl e
              | Inr n \<Rightarrow> Inr (n, sz')))
      else if root > k then
        (case insert_recursive r root sz of
           Inl e \<Rightarrow> Inl e
         | Inr (r', sz') \<Rightarrow>
             (case insert_rebalance k l r' d root of
                Inl e \<Rightarrow> Inl e
              | Inr n \<Rightarrow> Inr (n, sz')))
      else Inr (AVLNode k l r h d, sz))"

definition avl_insert :: "AVLTree \<Rightarrow> ustr \<Rightarrow> py_error + (AVLTree \<times> bool \<times> ustr)" where
  "avl_insert t root =
     (case insert_recursive (avl_root t) root (avl_size t) of
        Inl e \<Rightarrow> Inl e
      | Inr (n, sz) \<Rightarrow>
          Inr (\<lparr>avl_root = n, avl_size = sz\<rparr>,
               if sz > avl_size t
               then (True, ascii ''Root '' @ quoted root @ ascii '' inserted successfully'')
               else (False, ascii ''Root '' @ quoted root @ ascii '' already exists'')))"

fun search_recursive :: "node \<Rightarrow> ustr \<Rightarrow> bool" where
  "search_recursive NoNode root = False"
| "search_recursive (AVLNode k l r h d) root =
     (if root = k then True
      else if root < k then search_recursive l root
      else search_recursive r root)"

definition avl_search :: "AVLTree \<Rightarrow> ustr \<Rightarrow> bool" where
  "avl_search t root = search_recursive (avl_root t) root"

fun get_node_rec :: "node \<Rightarrow> ustr \<Rightarrow> node" where
  "get_node_rec NoNode root = NoNode"
| "get_node_rec (AVLNode k l r h d) root =
     (if root = k then AVLNode k l r h d
      else if root < k then get_node_rec l root
      else get_node_rec r root)"

definition get_node :: "AVLTree \<Rightarrow> ustr \<Rightarrow> node" where
  "get_node t root = get_node_rec (avl_root t) root"


fun in_order_recursive :: "node \<Rightarrow> ustr list \<Rightarrow> ustr list" where
  "in_order_recursive NoNode result = result"
| "in_order_recursive (AVLNode k l r h d) result =
     in_order_recursive r (in_order_recursive l result @ [k])"

definition in_order_traversal :: "AVLTree \<Rightarrow> ustr list" where
  "in_order_traversal t = in_order_recursive (avl_root t) []"

text \<open>
  \<open>get_all_roots_with_words\<close> and its traversal \<open>_in_order_with_words\<close>: each dictionary
  \<open>{"root": k, "derived_words": d}\<close> is the pair \<open>(k, d)\<close>.
\<close>

fun in_order_with_words :: "node \<Rightarrow> (ustr \<times> derived) list \<Rightarrow> (ustr \<times> derived) list" where
  "in_order_with_words NoNode result = result"
| "in_order_with_words (AVLNode k l r h d) result =
     in_order_with_words r (in_order_with_words l result @ [(k, d)])"

definition get_all_roots_with_words :: "AVLTree \<Rightarrow> (ustr \<times> derived) list" where
  "get_all_roots_with_words t = in_order_with_words (avl_root t) []"

text \<open>\<open>_get_min_node\<close>: the loop \<open>while current.left\<close>; on \<open>None\<close> the read of \<open>.left\<close> raises.\<close>

fun get_min_node :: "node \<Rightarrow> py_error + node" where
  "get_min_node NoNode = Inl AttributeError"
| "get_min_node (AVLNode k NoNode r h d) = Inr (AVLNode k NoNode r h d)"
| "get_min_node (AVLNode k (AVLNode lk ll lr lh ld) r h d) =
     get_min_node (AVLNode lk ll lr lh ld)"

text \<open>
  The tail of \<open>_delete_recursive\<close> (height update, balance factor, rebalancing by the
  child's own balance factor), run on the node after the descent or the splice.
\<close>

definition delete_rebalance :: "ustr \<Rightarrow> node \<Rightarrow> node \<Rightarrow> derived \<Rightarrow> py_error + node" where
  "delete_rebalance k l r d =
     (let hh = 1 + max (get_height l) (get_height r);
          balance = get_height l - get_height r
      in if balance > 1 then
           (if get_balance_factor l \<ge> 0 then rotate_right (AVLNode k l r hh d)
            else (case rotate_left l of
                    Inl e \<Rightarrow> Inl e
                  | Inr l' \<Rightarrow> rotate_right (AVLNode k l' r hh d)))
         else if balance < - 1 then
           (if get_balance_factor r \<le> 0 then rotate_left (AVLNode k l r hh d)
            else (case rotate_right r of
                    Inl e \<Rightarrow> Inl e
                  | Inr r' \<Rightarrow> rotate_left (AVLNode k l r' hh d)))
         else Inr (AVLNode k l r hh d))"

text \<open>
  \<open>_delete_recursive\<close> with \<open>self.size\<close> passed in and returned.  At the node found the
  count goes down by one; with two children the node takes the key and the dictionary of
  the smallest node of its right subtree, that key is deleted from the right subtree
  (counting down once more where it is found), and the count goes up by one again.
\<close>

fun delete_recursive :: "node \<Rightarrow> ustr \<Rightarrow> int \<Rightarrow> py_error + (node \<times> int)" where
  "delete_recursive NoNode root sz = Inr (NoNode, sz)"
| "delete_recursive (AVLNode k l r h d) root sz =
     (if root < k then
        (case delete_recursive l root sz of
           Inl e \<Rightarrow> Inl e
         | Inr (l', sz') \<Rightarrow>
             (case delete_rebalance k l' r d of
                Inl e \<Rightarrow> Inl e
              | Inr n \<Rightarrow> Inr (n, sz')))
      else if root > k then
        (case delete_recursive r root sz of
           Inl e \<Rightarrow> Inl e
         | Inr (r', sz') \<Rightarrow>
             (case delete_rebalance k l r' d of
                Inl e \<Rightarrow> Inl e
              | Inr n \<Rightarrow> Inr (n, sz')))
      else if l = NoNode then Inr (r, sz - 1)
      else if r = NoNode then Inr (l, sz - 1)
      else
        (case get_min_node r of
           Inl e \<Rightarrow> Inl e
         | Inr NoNode \<Rightarrow> Inl AttributeError
         | Inr (AVLNode mk ml mr mh md) \<Rightarrow>
             (case delete_recursive r mk (sz - 1) of
                Inl e \<Rightarrow> Inl e
              | Inr (r', sz') \<Rightarrow>
                  (case delete_rebalance mk l r' md of
                     Inl e \<Rightarrow> Inl e
                   | Inr n \<Rightarrow> Inr (n, sz' + 1)))))"

definition avl_delete :: "AVLTree \<Rightarrow> ustr \<Rightarrow> py_error + (AVLTree \<times> bool \<times> ustr)" where
  "avl_delete t root =
     (if \<not> avl_search t root
      then Inr (t, False, ascii ''Root '' @ quoted root @ ascii '' not found'')
      else
        (case delete_recursive (avl_root t) root (avl_size t) of
           Inl e \<Rightarrow> Inl e
         | Inr (n, sz) \<Rightarrow>
             Inr (\<lparr>avl_root = n, avl_size = sz\<rparr>,
                  if sz < avl_size t
                  then (True, ascii ''Root '' @ quoted root @ ascii '' deleted successfully'')
                  else (False, ascii ''Failed to delete root '' @ quoted root))))"

text \<open>
  \<open>new_node.derived_words = derived_words_backup\<close> for the node \<open>get_node\<close> finds: the
  node on the search path of the key gets the dictionary; nothing changes when the key is
  not found.
\<close>

fun set_derived_words :: "node \<Rightarrow> ustr \<Rightarrow> derived \<Rightarrow> node" where
  "set_derived_words NoNode root dw = NoNode"
| "set_derived_words (AVLNode k l r h d) root dw =
     (if root = k then AVLNode k l r h dw
      else if root < k then AVLNode k (set_derived_words l root dw) r h d
      else AVLNode k l (set_derived_words r root dw) h d)"

definition avl_update :: "AVLTree \<Rightarrow> ustr \<Rightarrow> ustr \<Rightarrow> py_error + (AVLTree \<times> bool \<times> ustr)" where
  "avl_update t old_root new_root =
     (if length new_root \<noteq> 3
      then Inr (t, False, ascii ''New root must be exactly 3 characters'')
      else if \<not> avl_search t old_root
      then Inr (t, False, ascii ''Root '' @ quoted old_root @ ascii '' not found'')
      else if avl_search t new_root \<and> old_root \<noteq> new_root
      then Inr (t, False, ascii ''Root '' @ quoted new_root @ ascii '' already exists'')
      else if old_root = new_root
      then Inr (t, False, ascii ''New root is the same as old root'')
      else
        (let derived_words_backup =
               (case get_node t old_root of NoNode \<Rightarrow> [] | AVLNode k l r h d \<Rightarrow> d)
         in case avl_delete t old_root of
              Inl e \<Rightarrow> Inl e
            | Inr (t1, success, m) \<Rightarrow>
                if success then
                  (case avl_insert t1 new_root of
                     Inl e \<Rightarrow> Inl e
                   | Inr (t2, res) \<Rightarrow>
                       Inr (t2\<lparr>avl_root :=
                                 set_derived_words (avl_root t2) new_root derived_words_backup\<rparr>,
                            True,
                            ascii ''Root updated from '' @ quoted old_root
                              @ ascii '' to '' @ quoted new_root))
                else Inr (t1, False, ascii ''Failed to update root'')))"

text \<open>
  A caller's use of one tree: a sequence of \<open>insert\<close> and \<open>delete\<close> calls, each on the tree
  the previous call left; a raised exception ends the run.
\<close>

datatype avl_op = AvlInsert ustr | AvlDelete ustr

fun avl_apply :: "AVLTree \<Rightarrow> avl_op \<Rightarrow> py_error + AVLTree" where
  "avl_apply t (AvlInsert root) =
     (case avl_insert t root of Inl e \<Rightarrow> Inl e | Inr (t', res) \<Rightarrow> Inr t')"
| "avl_apply t (AvlDelete root) =
     (case avl_delete t root of Inl e \<Rightarrow> Inl e | Inr (t', res) \<Rightarrow> Inr t')"

fun avl_run :: "AVLTree \<Rightarrow> avl_op list \<Rightarrow> py_error + AVLTree" where
  "avl_run t [] = Inr t"
| "avl_run t (x # xs) = (case avl_apply t x of Inl e \<Rightarrow> Inl e | Inr t' \<Rightarrow> avl_run t' xs)"

text \<open>
  The AVL invariant of the data model: at every node the children's heights differ by at
  most one and the stored height is one more than the larger of them, an absent child
  counting 0.
\<close>

fun avl_inv :: "node \<Rightarrow> bool" where
  "avl_inv NoNode = True"
| "avl_inv (AVLNode k l r h d) =
     (avl_inv l \<and> avl_inv r
      \<and> \<bar>get_height l - get_height r\<bar> \<le> 1
      \<and> h = 1 + max (get_height l) (get_height r))"

text \<open>The keys of a tree, and the search-tree order on them.\<close>

fun keys :: "node \<Rightarrow> ustr set" where
  "keys NoNode = {}"
| "keys (AVLNode k l r h d) = insert k (keys l \<union> keys r)"

fun bst :: "node \<Rightarrow> bool" where
  "bst NoNode = True"
| "bst (AVLNode k l r h d) =
     (bst l \<and> bst r \<and> (\<forall>x \<in> keys l. x < k) \<and> (\<forall>x \<in> keys r. k < x))"

text \<open>
  The same invariant with the heights measured on the tree instead of read from the
  \<open>height\<close> fields of the children.
\<close>

fun subtree_height :: "node \<Rightarrow> int" where
  "subtree_height NoNode = 0"
| "subtree_height (AVLNode k l r h d) = 1 + max (subtree_height l) (subtree_height r)"

fun avl_measured :: "node \<Rightarrow> bool" where
  "avl_measured NoNode = True"
| "avl_measured (AVLNode k l r h d) =
     (avl_measured l \<and> avl_measured r
      \<and> \<bar>subtree_height l - subtree_height r\<bar> \<le> 1
      \<and> h = 1 + max (subtree_height l) (subtree_height r))"

text \<open>
  The roots of a subtree with their dictionaries, from left to right: what
  \<open>_in_order_with_words\<close> appends for that subtree.
\<close>

fun entries :: "node \<Rightarrow> (ustr \<times> derived) list" where
  "entries NoNode = []"
| "entries (AVLNode k l r h d) = entries l @ (k, d) # entries r"

text \<open>
  Where a subtree that has just grown by the insertion of \<open>root\<close> is heavier: it is a
  single new node, or its taller child is the one on the side of \<open>root\<close>.  This is what
  makes the key comparisons of \<open>_insert_recursive\<close> pick the right rotation.
\<close>

definition heavy_side :: "ustr \<Rightarrow> node \<Rightarrow> bool" where
  "heavy_side root t =
     (case t of
        NoNode \<Rightarrow> False
      | AVLNode k l r h d \<Rightarrow>
          (l = NoNode \<and> r = NoNode)
          \<or> (root < k \<and> get_height l = get_height r + 1)
          \<or> (k < root \<and> get_height r = get_height l + 1))"

section \<open>Invariant of the pattern index\<close>

text \<open>
  The invariant of a table: the bucket array has as many buckets as \<open>size\<close> says, the
  modulus is not zero, the templates within a bucket are pairwise different, and every
  entry lies in the bucket its template hashes to.
\<close>

definition ht_inv :: "HashTable \<Rightarrow> bool" where
  "ht_inv ht \<longleftrightarrow>
     ht_mod ht \<noteq> 0 \<and> length (ht_table ht) = nat (ht_size ht)
     \<and> (\<forall>i < length (ht_table ht).
          distinct (map template (ht_table ht ! i))
          \<and> (\<forall>e \<in> set (ht_table ht ! i). polynomial_hash ht (template e) = Inr (int i)))"

section \<open>Properties of the morphological engine\<close>

lemma derivatives_loop_append:
  "derivatives_loop root ps acc =
     acc @ filter (\<lambda>(t, w). w \<noteq> []) (map (\<lambda>t. (t, apply_root_to_pattern root t)) ps)"
  by (induction ps arbitrary: acc) (simp_all add: Let_def)

lemma validate_loop_first_match:
  "t \<in> set ps \<Longrightarrow> apply_root_to_pattern root t = w \<Longrightarrow>
   \<exists>us t' vs. ps = us @ t' # vs \<and> (\<forall>u \<in> set us. apply_root_to_pattern root u \<noteq> w)
      \<and> apply_root_to_pattern root t' = w \<and> t \<in> set (t' # vs)
      \<and> validate_loop w root ps = (True, Some t')"
proof (induction ps)
  case Nil
  then show ?case by simp
next
  case (Cons p ps)
  show ?case
  proof (cases "apply_root_to_pattern root p = w")
    case True
    show ?thesis
      apply (rule exI [of _ "[]"], rule exI [of _ p], rule exI [of _ ps])
      using True Cons.prems(1) by simp
  next
    case False
    with Cons.prems have "t \<in> set ps" by auto
    from Cons.IH [OF this Cons.prems(2)] obtain us t' vs where
      h: "ps = us @ t' # vs" "\<forall>u \<in> set us. apply_root_to_pattern root u \<noteq> w"
         "apply_root_to_pattern root t' = w" "t \<in> set (t' # vs)"
         "validate_loop w root ps = (True, Some t')"
      by blast
    show ?thesis
      apply (rule exI [of _ "p # us"], rule exI [of _ t'], rule exI [of _ vs])
      using h False by simp
  qed
qed

text \<open>
  C1: the docstring of \<open>apply_root_to_pattern\<close> gives, for the root k-t-b and the pattern
  fa-fatha-alif-ayn-kasra-lam, the four letters kaf-alif-ta-ba, and for the root ayn-lam-mim
  and the same pattern the four letters ayn-alif-lam-mim. The code returns neither: at these
  two inputs it returns kaf-fatha-alif-ta-kasra-ba and ayn-fatha-alif-lam-kasra-mim, six code
  points each, because the substitution loop copies the fatha and the kasra of the pattern
  and no later rule removes them. The code diverges from its own documented examples.
\<close>

theorem C1_docstring_examples_diverge:
  "apply_root_to_pattern [0x643, 0x62A, 0x628] [0x641, 0x64E, 0x627, 0x639, 0x650, 0x644]
     = [0x643, 0x64E, 0x627, 0x62A, 0x650, 0x628]
   \<and> apply_root_to_pattern [0x643, 0x62A, 0x628] [0x641, 0x64E, 0x627, 0x639, 0x650, 0x644]
     \<noteq> [0x643, 0x627, 0x62A, 0x628]
   \<and> apply_root_to_pattern [0x639, 0x644, 0x645] [0x641, 0x64E, 0x627, 0x639, 0x650, 0x644]
     = [0x639, 0x64E, 0x627, 0x644, 0x650, 0x645]
   \<and> apply_root_to_pattern [0x639, 0x644, 0x645] [0x641, 0x64E, 0x627, 0x639, 0x650, 0x644]
     \<noteq> [0x639, 0x627, 0x644, 0x645]"
  by (simp add: apply_phonological_rules_def WEAK_LETTERS_def EMPHATIC_def DENTAL_def
        LABIAL_def)

text \<open>
  C7: for a root of three characters and any list of patterns, every pair
  (template, generated word) returned by \<open>generate_derivatives\<close> is accepted by
  \<open>validate_word\<close> on the same root and patterns: it returns true together with the
  first template of the list that generates this word, which is the pair's template or
  one standing before it in the list.
\<close>

theorem C7_generate_then_validate:
  assumes "length root = 3"
      and "(t, w) \<in> set (generate_derivatives root ps)"
  shows "\<exists>us t' vs. ps = us @ t' # vs
           \<and> (\<forall>u \<in> set us. apply_root_to_pattern root u \<noteq> w)
           \<and> apply_root_to_pattern root t' = w
           \<and> t \<in> set (t' # vs)
           \<and> validate_word w root ps = (True, Some t')"
proof -
  from assms have "t \<in> set ps" "apply_root_to_pattern root t = w"
    by (auto simp: generate_derivatives_def derivatives_loop_append)
  from validate_loop_first_match [OF this] show ?thesis
    using assms(1) by (simp add: validate_word_def)
qed

theorem C7_generate_then_validate_witness:
  "length [0x643, 0x62A, 0x628 :: nat] = 3
   \<and> ([0x641, 0x64E, 0x627, 0x639, 0x650, 0x644], [0x643, 0x64E, 0x627, 0x62A, 0x650, 0x628])
       \<in> set (generate_derivatives [0x643, 0x62A, 0x628]
                [[0x641, 0x639, 0x644], [0x641, 0x64E, 0x627, 0x639, 0x650, 0x644]])
   \<and> (\<exists>us t' vs.
         [[0x641, 0x639, 0x644], [0x641, 0x64E, 0x627, 0x639, 0x650, 0x644]] = us @ t' # vs
         \<and> (\<forall>u \<in> set us. apply_root_to_pattern [0x643, 0x62A, 0x628] u
                \<noteq> [0x643, 0x64E, 0x627, 0x62A, 0x650, 0x628])
         \<and> apply_root_to_pattern [0x643, 0x62A, 0x628] t'
             = [0x643, 0x64E, 0x627, 0x62A, 0x650, 0x628]
         \<and> [0x641, 0x64E, 0x627, 0x639, 0x650, 0x644] \<in> set (t' # vs)
         \<and> validate_word [0x643, 0x64E, 0x627, 0x62A, 0x650, 0x628] [0x643, 0x62A, 0x628]
              [[0x641, 0x639, 0x644], [0x641, 0x64E, 0x627, 0x639, 0x650, 0x644]]
             = (True, Some t'))"
proof -
  have h1: "length [0x643, 0x62A, 0x628 :: nat] = 3" by simp
  have h2: "([0x641, 0x64E, 0x627, 0x639, 0x650, 0x644], [0x643, 0x64E, 0x627, 0x62A, 0x650, 0x628])
       \<in> set (generate_derivatives [0x643, 0x62A, 0x628]
                [[0x641, 0x639, 0x644], [0x641, 0x64E, 0x627, 0x639, 0x650, 0x644]])"
    by (simp add: generate_derivatives_def apply_phonological_rules_def
          WEAK_LETTERS_def EMPHATIC_def DENTAL_def LABIAL_def)
  show ?thesis
    by (rule conjI [OF h1 conjI [OF h2 C7_generate_then_validate [OF h1 h2]]])
qed

section \<open>Properties of the pattern index\<close>

lemma polynomial_hash_fields [simp]:
  "polynomial_hash (ht\<lparr>ht_table := tb\<rparr>) t = polynomial_hash ht t"
  "polynomial_hash (ht\<lparr>ht_count := c\<rparr>) t = polynomial_hash ht t"
  by (simp_all add: polynomial_hash_def split: sum.splits)

lemma chain_exists_iff: "chain_exists b t \<longleftrightarrow> t \<in> template ` set b"
  by (induction b) auto

lemma chain_delete_None: "chain_delete b t = None \<longleftrightarrow> t \<notin> template ` set b"
  by (induction b) (auto split: option.splits)

lemma chain_delete_mset:
  "chain_delete b t = Some b' \<Longrightarrow> mset (map template b) = add_mset t (mset (map template b'))"
  by (induction b arbitrary: b') (auto split: if_splits option.splits)

lemma chain_delete_set: "chain_delete b t = Some b' \<Longrightarrow> set b' \<subseteq> set b"
  by (induction b arbitrary: b') (auto split: if_splits option.splits)

lemma chain_delete_distinct:
  "chain_delete b t = Some b' \<Longrightarrow> distinct (map template b) \<Longrightarrow>
   distinct (map template b') \<and> t \<notin> template ` set b'"
proof (induction b arbitrary: b')
  case Nil
  then show ?case by simp
next
  case (Cons e b)
  show ?case
  proof (cases "template e = t")
    case True
    with Cons.prems show ?thesis by auto
  next
    case False
    with Cons.prems obtain r where r: "chain_delete b t = Some r" "b' = e # r"
      by (auto split: option.splits)
    from Cons.IH [OF r(1)] Cons.prems(2) have "distinct (map template r)" "t \<notin> template ` set r"
      by auto
    moreover from chain_delete_set [OF r(1)] Cons.prems(2) have "template e \<notin> template ` set r"
      by auto
    ultimately show ?thesis using r(2) False by auto
  qed
qed

lemma bucket_of:
  assumes "ht_inv ht" "polynomial_hash ht t = Inr i" "list_get (ht_table ht) i = Inr b"
  shows "0 \<le> i \<and> nat i < length (ht_table ht) \<and> b = ht_table ht ! nat i"
proof -
  from assms(1) have len: "length (ht_table ht) = nat (ht_size ht)" by (simp add: ht_inv_def)
  from assms(3) have ne: "ht_table ht \<noteq> []"
    by (auto simp: list_get_def py_index_def split: if_splits)
  with len have pos: "0 < ht_size ht" by (cases "0 < ht_size ht") auto
  from assms(2) obtain hv where "i = hv mod ht_size ht"
    by (auto simp: polynomial_hash_def split: sum.splits if_splits)
  with pos have "0 \<le> i" "i < ht_size ht" by simp_all
  with len assms(3) show ?thesis by (auto simp: list_get_def py_index_def split: if_splits)
qed

lemma list_set_Inr: "0 \<le> i \<Longrightarrow> nat i < length xs \<Longrightarrow> list_set xs i v = Inr (xs[nat i := v])"
  by (auto simp: list_set_def py_index_def)

lemma list_get_Inr: "0 \<le> i \<Longrightarrow> nat i < length xs \<Longrightarrow> list_get xs i = Inr (xs ! nat i)"
  by (auto simp: list_get_def py_index_def)

lemma mset_concat_update:
  "i < length xs \<Longrightarrow>
   mset (concat (xs[i := y])) + mset (xs ! i) = mset (concat xs) + mset y"
proof (induction xs arbitrary: i)
  case Nil
  then show ?case by simp
next
  case (Cons x xs)
  then show ?case by (cases i) (auto simp: ac_simps)
qed

lemma ht_exists_True:
  assumes "ht_inv ht" "ht_exists ht t = Inr True"
  shows "\<exists>i. polynomial_hash ht t = Inr (int i) \<and> i < length (ht_table ht)
           \<and> t \<in> template ` set (ht_table ht ! i)"
proof -
  from assms(2) obtain j b where
    j: "polynomial_hash ht t = Inr j" "list_get (ht_table ht) j = Inr b" "chain_exists b t"
    by (auto simp: ht_exists_def split: sum.splits)
  from bucket_of [OF assms(1) j(1,2)] have
    "0 \<le> j" "nat j < length (ht_table ht)" "b = ht_table ht ! nat j" by simp_all
  with j show ?thesis
    by (intro exI [of _ "nat j"]) (simp add: chain_exists_iff)
qed

lemma ht_delete_present:
  assumes "ht_inv ht" "polynomial_hash ht t = Inr (int i)" "i < length (ht_table ht)"
      and "t \<in> template ` set (ht_table ht ! i)"
  shows "\<exists>b' m. chain_delete (ht_table ht ! i) t = Some b'
           \<and> ht_delete ht t
               = Inr (ht\<lparr>ht_table := (ht_table ht)[i := b'], ht_count := ht_count ht - 1\<rparr>,
                      True, m)"
proof -
  from assms(4) obtain b' where b': "chain_delete (ht_table ht ! i) t = Some b'"
    using chain_delete_None [of "ht_table ht ! i" t] by (cases "chain_delete (ht_table ht ! i) t") auto
  show ?thesis
    using assms(2,3) b'
    by (simp add: ht_delete_def list_get_Inr list_set_Inr)
qed

lemma ht_put_absent:
  assumes "polynomial_hash ht t = Inr (int i)" "i < length (ht_table ht)"
      and "t \<notin> template ` set (ht_table ht ! i)"
  shows "\<exists>m. ht_put ht t
           = Inr (ht\<lparr>ht_table := (ht_table ht)[i := \<lparr>template = t, hash_value = int i\<rparr> # ht_table ht ! i],
                     ht_count := ht_count ht + 1\<rparr>, True, m)"
  using assms
  by (simp add: ht_put_def ht_exists_def compute_full_hash_def list_get_Inr list_set_Inr
        chain_exists_iff)

lemma ht_exists_Inr:
  assumes "ht_inv ht" "ht_exists ht t = Inr v"
  shows "\<exists>i. polynomial_hash ht t = Inr (int i) \<and> i < length (ht_table ht)
           \<and> (v \<longleftrightarrow> t \<in> template ` set (ht_table ht ! i))"
proof -
  from assms(2) obtain j b where
    j: "polynomial_hash ht t = Inr j" "list_get (ht_table ht) j = Inr b" "v = chain_exists b t"
    by (auto simp: ht_exists_def split: sum.splits)
  from bucket_of [OF assms(1) j(1,2)] have
    "0 \<le> j" "nat j < length (ht_table ht)" "b = ht_table ht ! nat j" by simp_all
  with j show ?thesis
    by (intro exI [of _ "nat j"]) (simp add: chain_exists_iff)
qed

lemma ht_inv_bucket:
  assumes "ht_inv ht" "i < length (ht_table ht)" "distinct (map template b)"
      and "\<forall>e \<in> set b. polynomial_hash ht (template e) = Inr (int i)"
  shows "ht_inv (ht\<lparr>ht_table := (ht_table ht)[i := b], ht_count := c\<rparr>)"
  using assms by (auto simp: ht_inv_def nth_list_update)

lemma ht_put_inv:
  assumes "ht_inv ht" "ht_put ht t = Inr (ht', r)"
  shows "ht_inv ht'"
proof -
  from assms(2) obtain v where v: "ht_exists ht t = Inr v"
    by (auto simp: ht_put_def split: sum.splits)
  from ht_exists_Inr [OF assms(1) v] obtain i where
    i: "polynomial_hash ht t = Inr (int i)" "i < length (ht_table ht)"
       "v \<longleftrightarrow> t \<in> template ` set (ht_table ht ! i)" by blast
  show ?thesis
  proof (cases v)
    case True
    with v assms show ?thesis by (simp add: ht_put_def)
  next
    case False
    with i have absent: "t \<notin> template ` set (ht_table ht ! i)" by simp
    from ht_put_absent [OF i(1,2) absent] assms(2) have
      "ht' = ht\<lparr>ht_table := (ht_table ht)[i := \<lparr>template = t, hash_value = int i\<rparr> # ht_table ht ! i],
                 ht_count := ht_count ht + 1\<rparr>" by auto
    moreover have "distinct (map template (\<lparr>template = t, hash_value = int i\<rparr> # ht_table ht ! i))"
      using absent assms(1) i(2) by (auto simp: ht_inv_def)
    moreover have "\<forall>e \<in> set (\<lparr>template = t, hash_value = int i\<rparr> # ht_table ht ! i).
                     polynomial_hash ht (template e) = Inr (int i)"
      using i(1,2) assms(1) by (auto simp: ht_inv_def)
    ultimately show ?thesis using ht_inv_bucket [OF assms(1) i(2)] by simp
  qed
qed

lemma ht_delete_inv:
  assumes "ht_inv ht" "ht_delete ht t = Inr (ht', r)"
  shows "ht_inv ht'"
proof -
  from assms(2) obtain j b where
    j: "polynomial_hash ht t = Inr j" "list_get (ht_table ht) j = Inr b"
    by (auto simp: ht_delete_def split: sum.splits)
  from bucket_of [OF assms(1) j] have
    jb: "0 \<le> j" "nat j < length (ht_table ht)" "b = ht_table ht ! nat j" by simp_all
  define i where "i = nat j"
  with jb have ji: "j = int i" "i < length (ht_table ht)" "b = ht_table ht ! i" by simp_all
  show ?thesis
  proof (cases "chain_delete b t")
    case None
    with j assms show ?thesis by (simp add: ht_delete_def)
  next
    case (Some b')
    with j ji assms(2) have
      ht': "ht' = ht\<lparr>ht_table := (ht_table ht)[i := b'], ht_count := ht_count ht - 1\<rparr>"
      by (auto simp: ht_delete_def list_set_Inr)
    from assms(1) ji(2) have
      "distinct (map template (ht_table ht ! i))
       \<and> (\<forall>e \<in> set (ht_table ht ! i). polynomial_hash ht (template e) = Inr (int i))"
      unfolding ht_inv_def by blast
    with ji(3) have "distinct (map template b)"
      "\<forall>e \<in> set b. polynomial_hash ht (template e) = Inr (int i)" by simp_all
    with chain_delete_distinct [OF Some] chain_delete_set [OF Some] have
      "distinct (map template b')" "\<forall>e \<in> set b'. polynomial_hash ht (template e) = Inr (int i)"
      by auto
    with ht_inv_bucket [OF assms(1) ji(2)] ht' show ?thesis by simp
  qed
qed

lemma ht_update_inv:
  assumes "ht_inv ht" "ht_update ht t u = Inr (ht', r)"
  shows "ht_inv ht'"
  using assms
  by (auto simp: ht_update_def split: sum.splits bool.splits if_splits prod.splits
        dest: ht_delete_inv ht_put_inv)

lemma ht_apply_inv: "ht_inv ht \<Longrightarrow> ht_apply ht x = Inr ht' \<Longrightarrow> ht_inv ht'"
  by (cases x) (auto split: sum.splits dest: ht_put_inv ht_delete_inv ht_update_inv)

lemma ht_run_inv: "ht_inv ht \<Longrightarrow> ht_run ht xs = Inr ht' \<Longrightarrow> ht_inv ht'"
  by (induction xs arbitrary: ht) (auto split: sum.splits dest: ht_apply_inv)

lemma HashTable_init_inv: "ht_inv (HashTable_init n)"
  by (simp add: ht_inv_def HashTable_init_def)

lemma distinct_buckets:
  "\<forall>i < length tb. distinct (map template (tb ! i))
      \<and> (\<forall>e \<in> set (tb ! i). h (template e) = Inr (int i)) \<Longrightarrow>
   distinct (map template (concat tb))"
proof (induction tb rule: rev_induct)
  case Nil
  then show ?case by simp
next
  case (snoc b tb)
  have old: "\<forall>i < length tb. distinct (map template (tb ! i))
               \<and> (\<forall>e \<in> set (tb ! i). h (template e) = Inr (int i))"
  proof (intro allI impI)
    fix i assume "i < length tb"
    with snoc.prems [rule_format, of i] show
      "distinct (map template (tb ! i)) \<and> (\<forall>e \<in> set (tb ! i). h (template e) = Inr (int i))"
      by (simp add: nth_append)
  qed
  from snoc.prems [rule_format, of "length tb"] have
    new: "distinct (map template b)" "\<forall>e \<in> set b. h (template e) = Inr (int (length tb))"
    by simp_all
  have "template x \<noteq> template y" if "x \<in> set (concat tb)" "y \<in> set b" for x y
  proof -
    from that(1) obtain ys where "ys \<in> set tb" "x \<in> set ys" by auto
    then obtain i where "i < length tb" "x \<in> set (tb ! i)"
      by (metis in_set_conv_nth)
    with old have "h (template x) = Inr (int i)" "i \<noteq> length tb" by auto
    moreover from that(2) new have "h (template y) = Inr (int (length tb))" by simp
    ultimately show ?thesis by auto
  qed
  then have "template ` set (concat tb) \<inter> template ` set b = {}" by blast
  with snoc.IH [OF old] new(1) show ?case by simp
qed

lemma nth_subset_concat: "i < length xs \<Longrightarrow> set (xs ! i) \<subseteq> set (concat xs)"
proof
  fix x assume "i < length xs" "x \<in> set (xs ! i)"
  then have "xs ! i \<in> set xs" "x \<in> set (xs ! i)" by simp_all
  then show "x \<in> set (concat xs)" unfolding set_concat by blast
qed

lemma ht_inv_distinct: "ht_inv ht \<Longrightarrow> distinct (get_all_patterns ht)"
  unfolding get_all_patterns_def distinct_sort
  by (rule distinct_buckets [where h = "polynomial_hash ht"]) (simp add: ht_inv_def)

lemma sort_cong_mset: "mset xs = mset ys \<Longrightarrow> sort xs = sort ys"
  by (rule properties_for_sort) simp_all

lemma ht_update_same:
  assumes "ht_inv ht" "ht_exists ht t = Inr True"
  shows "\<exists>ht' m. ht_update ht t t = Inr (ht', True, m)
           \<and> get_all_patterns ht' = get_all_patterns ht
           \<and> ht_count ht' = ht_count ht
           \<and> ht_exists ht' t = Inr True"
proof -
  from ht_exists_Inr [OF assms] obtain i where
    i: "polynomial_hash ht t = Inr (int i)" "i < length (ht_table ht)"
       "t \<in> template ` set (ht_table ht ! i)" by blast
  from ht_delete_present [OF assms(1) i] obtain b' m1 where
    d: "chain_delete (ht_table ht ! i) t = Some b'"
       "ht_delete ht t
          = Inr (ht\<lparr>ht_table := (ht_table ht)[i := b'], ht_count := ht_count ht - 1\<rparr>, True, m1)"
    by blast
  define ht1 where "ht1 = ht\<lparr>ht_table := (ht_table ht)[i := b'], ht_count := ht_count ht - 1\<rparr>"
  have dist: "distinct (map template (ht_table ht ! i))"
    using assms(1) i(2) by (simp add: ht_inv_def)
  from chain_delete_distinct [OF d(1) dist] have absent: "t \<notin> template ` set b'" by simp
  have h1: "polynomial_hash ht1 t = Inr (int i)" "i < length (ht_table ht1)"
           "t \<notin> template ` set (ht_table ht1 ! i)"
    using i(1,2) absent by (simp_all add: ht1_def)
  from ht_put_absent [OF h1] obtain m2 where
    p: "ht_put ht1 t
          = Inr (ht1\<lparr>ht_table := (ht_table ht1)[i := \<lparr>template = t, hash_value = int i\<rparr> # ht_table ht1 ! i],
                     ht_count := ht_count ht1 + 1\<rparr>, True, m2)"
    by blast
  define ht2 where
    "ht2 = ht1\<lparr>ht_table := (ht_table ht1)[i := \<lparr>template = t, hash_value = int i\<rparr> # ht_table ht1 ! i],
               ht_count := ht_count ht1 + 1\<rparr>"
  have tab2: "ht_table ht2 = (ht_table ht)[i := \<lparr>template = t, hash_value = int i\<rparr> # b']"
    using i(2) by (simp add: ht2_def ht1_def)
  have upd: "ht_update ht t t
               = Inr (ht2, True, ascii ''Pattern updated from '' @ quoted t @ ascii '' to '' @ quoted t)"
    using assms(2) d(2) p by (simp add: ht_update_def ht1_def [symmetric] ht2_def [symmetric])
  have cnt: "ht_count ht2 = ht_count ht" by (simp add: ht2_def ht1_def)
  have "mset (concat (ht_table ht2)) + mset (ht_table ht ! i)
          = mset (concat (ht_table ht)) + mset (\<lparr>template = t, hash_value = int i\<rparr> # b')"
    unfolding tab2 using i(2) by (rule mset_concat_update)
  then have "image_mset template (mset (concat (ht_table ht2)) + mset (ht_table ht ! i))
          = image_mset template (mset (concat (ht_table ht)) + mset (\<lparr>template = t, hash_value = int i\<rparr> # b'))"
    by simp
  then have "mset (map template (concat (ht_table ht2))) + mset (map template (ht_table ht ! i))
          = mset (map template (concat (ht_table ht))) + add_mset t (mset (map template b'))"
    by simp
  with chain_delete_mset [OF d(1)] have
    "mset (map template (concat (ht_table ht2))) = mset (map template (concat (ht_table ht)))"
    by simp
  then have pats: "get_all_patterns ht2 = get_all_patterns ht"
    unfolding get_all_patterns_def by (rule sort_cong_mset)
  have ex2: "ht_exists ht2 t = Inr True"
    using i(1,2) by (simp add: ht_exists_def ht2_def ht1_def list_get_Inr)
  from upd pats cnt ex2 show ?thesis by blast
qed

text \<open>
  C9 (the code at a failing input): \<open>put\<close> of the one-character template "f" (code point
  102) into a fresh table of 101 buckets stores an entry whose hash value is 1, the bucket
  index, while the polynomial hash of the template before the reduction modulo the table
  size is 102.
\<close>

theorem C9_stored_hash_is_bucket_index:
  "ht_put (HashTable_init 101) [102]
     = Inr (\<lparr>ht_size = 101,
             ht_table = (replicate 101 [])[1 := [\<lparr>template = [102], hash_value = 1\<rparr>]],
             ht_count = 1, ht_prime = 31, ht_mod = 10 ^ 9 + 7\<rparr>,
            True, ascii ''Pattern '' @ quoted [102] @ ascii '' inserted successfully'')
   \<and> hash_loop 31 (10 ^ 9 + 7) [102] 0 = Inr 102
   \<and> polynomial_hash (HashTable_init 101) [102] = Inr 1"
  by (simp add: ht_put_def ht_exists_def polynomial_hash_def compute_full_hash_def
        HashTable_init_def list_get_def list_set_def py_index_def)

text \<open>
  C10: in every table reached from a fresh one by \<open>put\<close>, \<open>delete\<close> and \<open>update\<close> calls,
  for every template \<open>t\<close> that \<open>exists\<close> reports as stored, \<open>update(t, t)\<close> returns success;
  afterwards \<open>get_all_patterns\<close> returns the same list as before, the entry count is the
  same, and \<open>t\<close> occurs in that list, which has no duplicates.
\<close>

theorem C10_update_same_template:
  assumes "ht_run (HashTable_init n) ops = Inr ht"
      and "ht_exists ht t = Inr True"
  shows "\<exists>ht' m. ht_update ht t t = Inr (ht', True, m)
           \<and> get_all_patterns ht' = get_all_patterns ht
           \<and> ht_count ht' = ht_count ht
           \<and> t \<in> set (get_all_patterns ht')
           \<and> distinct (get_all_patterns ht')"
proof -
  from ht_run_inv [OF HashTable_init_inv assms(1)] have inv: "ht_inv ht" .
  from ht_update_same [OF inv assms(2)] obtain ht' m where
    u: "ht_update ht t t = Inr (ht', True, m)" "get_all_patterns ht' = get_all_patterns ht"
       "ht_count ht' = ht_count ht" "ht_exists ht' t = Inr True" by blast
  from ht_update_inv [OF inv u(1)] have inv': "ht_inv ht'" .
  from ht_exists_Inr [OF inv' u(4)] obtain i where
    i: "i < length (ht_table ht')" "t \<in> template ` set (ht_table ht' ! i)" by blast
  from nth_subset_concat [OF i(1)] i(2) have "t \<in> template ` set (concat (ht_table ht'))"
    by blast
  then have "t \<in> set (get_all_patterns ht')"
    by (simp add: get_all_patterns_def)
  with u ht_inv_distinct [OF inv'] show ?thesis by blast
qed

theorem C10_update_same_template_witness:
  "ht_run (HashTable_init 3) [Put [102]]
     = Inr \<lparr>ht_size = 3, ht_table = [[\<lparr>template = [102], hash_value = 0\<rparr>], [], []],
            ht_count = 1, ht_prime = 31, ht_mod = 10 ^ 9 + 7\<rparr>
   \<and> ht_exists \<lparr>ht_size = 3, ht_table = [[\<lparr>template = [102], hash_value = 0\<rparr>], [], []],
                 ht_count = 1, ht_prime = 31, ht_mod = 10 ^ 9 + 7\<rparr> [102] = Inr True
   \<and> (\<exists>ht' m.
        ht_update \<lparr>ht_size = 3, ht_table = [[\<lparr>template = [102], hash_value = 0\<rparr>], [], []],
                   ht_count = 1, ht_prime = 31, ht_mod = 10 ^ 9 + 7\<rparr> [102] [102]
          = Inr (ht', True, m)
        \<and> get_all_patterns ht'
            = get_all_patterns
                \<lparr>ht_size = 3, ht_table = [[\<lparr>template = [102], hash_value = 0\<rparr>], [], []],
                 ht_count = 1, ht_prime = 31, ht_mod = 10 ^ 9 + 7\<rparr>
        \<and> ht_count ht'
            = ht_count \<lparr>ht_size = 3, ht_table = [[\<lparr>template = [102], hash_value = 0\<rparr>], [], []],
                        ht_count = 1, ht_prime = 31, ht_mod = 10 ^ 9 + 7\<rparr>
        \<and> [102] \<in> set (get_all_patterns ht')
        \<and> distinct (get_all_patterns ht'))"
proof -
  have h1: "ht_run (HashTable_init 3) [Put [102]]
     = Inr \<lparr>ht_size = 3, ht_table = [[\<lparr>template = [102], hash_value = 0\<rparr>], [], []],
            ht_count = 1, ht_prime = 31, ht_mod = 10 ^ 9 + 7\<rparr>"
    by (simp add: ht_put_def ht_exists_def polynomial_hash_def compute_full_hash_def
          HashTable_init_def list_get_def list_set_def py_index_def numeral_3_eq_3)
  have h2: "ht_exists \<lparr>ht_size = 3, ht_table = [[\<lparr>template = [102], hash_value = 0\<rparr>], [], []],
                 ht_count = 1, ht_prime = 31, ht_mod = 10 ^ 9 + 7\<rparr> [102] = Inr True"
    by (simp add: ht_exists_def polynomial_hash_def list_get_def py_index_def)
  show ?thesis
    by (rule conjI [OF h1 conjI [OF h2 C10_update_same_template [OF h1 h2]]])
qed

section \<open>Properties of the root index\<close>

subsection \<open>Rotations and the balance after an insertion\<close>

lemma avl_inv_height_nonneg: "avl_inv t \<Longrightarrow> 0 \<le> get_height t"
  by (induction t) auto

lemma height_zero_NoNode: "avl_inv t \<Longrightarrow> get_height t = 0 \<Longrightarrow> t = NoNode"
  by (cases t) (auto dest: avl_inv_height_nonneg)

lemma height_pos_node: "0 < get_height t \<Longrightarrow> \<exists>k l r h d. t = AVLNode k l r h d"
  by (cases t) auto

lemma rotate_right_avl:
  assumes "avl_inv ll" "avl_inv lr" "avl_inv r"
      and "get_height ll = get_height r + 1"
      and "get_height lr = get_height r \<or> get_height lr = get_height r + 1"
  shows "\<exists>n. rotate_right (AVLNode k (AVLNode lk ll lr lh ld) r h d) = Inr n \<and> avl_inv n
           \<and> get_height n = get_height lr + 2"
  using assms by (auto simp: Let_def max_def)

lemma rotate_left_avl:
  assumes "avl_inv l" "avl_inv rl" "avl_inv rr"
      and "get_height rr = get_height l + 1"
      and "get_height rl = get_height l \<or> get_height rl = get_height l + 1"
  shows "\<exists>n. rotate_left (AVLNode k l (AVLNode rk rl rr rh rd) h d) = Inr n \<and> avl_inv n
           \<and> get_height n = get_height rl + 2"
  using assms by (auto simp: Let_def max_def)

lemma rotate_left_right_avl:
  assumes "avl_inv ll" "avl_inv (AVLNode mk ml mr mh md)" "avl_inv r"
      and "get_height ll = get_height r" "mh = get_height r + 1"
  shows "\<exists>l' n. rotate_left (AVLNode lk ll (AVLNode mk ml mr mh md) lh ld) = Inr l'
           \<and> rotate_right (AVLNode k l' r h d) = Inr n \<and> avl_inv n
           \<and> get_height n = get_height r + 2"
  using assms by (auto simp: Let_def max_def)

lemma rotate_right_left_avl:
  assumes "avl_inv l" "avl_inv (AVLNode mk ml mr mh md)" "avl_inv rr"
      and "get_height rr = get_height l" "mh = get_height l + 1"
  shows "\<exists>r' n. rotate_right (AVLNode rk (AVLNode mk ml mr mh md) rr rh rd) = Inr r'
           \<and> rotate_left (AVLNode k l r' h d) = Inr n \<and> avl_inv n
           \<and> get_height n = get_height l + 2"
  using assms by (auto simp: Let_def max_def)

lemma insert_rebalance_left:
  assumes "avl_inv l'" "avl_inv r" "root < k"
      and "get_height l' = hl \<or> (get_height l' = hl + 1 \<and> heavy_side root l')"
      and "\<bar>hl - get_height r\<bar> \<le> 1"
  shows "\<exists>n. insert_rebalance k l' r d root = Inr n \<and> avl_inv n
           \<and> (get_height n = 1 + max hl (get_height r)
              \<or> (get_height n = 2 + max hl (get_height r) \<and> heavy_side root n))"
proof (cases "get_height l' - get_height r > 1")
  case False
  with assms(4,5) have eq: "insert_rebalance k l' r d root
      = Inr (AVLNode k l' r (1 + max (get_height l') (get_height r)) d)"
    by (auto simp: insert_rebalance_def Let_def)
  show ?thesis
    unfolding eq using assms False by (auto simp: heavy_side_def max_def)
next
  case True
  with assms(4,5) have h: "get_height l' = get_height r + 2" "hl = get_height r + 1"
    "heavy_side root l'" by auto
  from avl_inv_height_nonneg [OF assms(2)] have rpos: "0 \<le> get_height r" .
  from h(1) rpos obtain lk ll lr lh ld where l': "l' = AVLNode lk ll lr lh ld"
    using height_pos_node [of l'] by auto
  from assms(1) l' h(1) have inv: "avl_inv ll" "avl_inv lr"
    "lh = 1 + max (get_height ll) (get_height lr)" "lh = get_height r + 2"
    "\<bar>get_height ll - get_height lr\<bar> \<le> 1" by auto
  from h(3) l' inv rpos consider
      (LL) "root < lk" "get_height ll = get_height lr + 1"
    | (LR) "lk < root" "get_height lr = get_height ll + 1"
    by (auto simp: heavy_side_def)
  then show ?thesis
  proof cases
    case LL
    with inv have hs: "get_height ll = get_height r + 1" "get_height lr = get_height r"
      by (auto simp: max_def)
    from rotate_right_avl [OF inv(1,2) assms(2) hs(1), where lk = lk and lh = lh and ld = ld
        and k = k and h = "1 + max (get_height l') (get_height r)" and d = d] hs(2)
    obtain n where n: "rotate_right (AVLNode k (AVLNode lk ll lr lh ld) r
        (1 + max (get_height l') (get_height r)) d) = Inr n" "avl_inv n"
        "get_height n = get_height r + 2" by auto
    have "insert_rebalance k l' r d root = Inr n"
      using True LL(1) n(1) l' by (simp add: insert_rebalance_def Let_def)
    with n h(2) show ?thesis by (auto simp: max_def)
  next
    case LR
    with inv have hs: "get_height lr = get_height r + 1" "get_height ll = get_height r"
      by (auto simp: max_def)
    from hs(1) rpos obtain mk ml mr mh md where lr: "lr = AVLNode mk ml mr mh md"
      using height_pos_node [of lr] by auto
    with hs(1) have mh: "mh = get_height r + 1" by simp
    from rotate_left_right_avl [OF inv(1) inv(2) [unfolded lr] assms(2) hs(2) mh,
        where lk = lk and lh = lh and ld = ld and k = k
        and h = "1 + max (get_height l') (get_height r)" and d = d]
    obtain l2 n where n: "rotate_left (AVLNode lk ll (AVLNode mk ml mr mh md) lh ld) = Inr l2"
        "rotate_right (AVLNode k l2 r (1 + max (get_height l') (get_height r)) d) = Inr n"
        "avl_inv n" "get_height n = get_height r + 2" by auto
    have "insert_rebalance k l' r d root = Inr n"
      using True LR(1) n(1,2) l' lr by (auto simp: insert_rebalance_def Let_def)
    with n h(2) show ?thesis by (auto simp: max_def)
  qed
qed

lemma insert_rebalance_right:
  assumes "avl_inv l" "avl_inv r'" "k < root"
      and "get_height r' = hr \<or> (get_height r' = hr + 1 \<and> heavy_side root r')"
      and "\<bar>get_height l - hr\<bar> \<le> 1"
  shows "\<exists>n. insert_rebalance k l r' d root = Inr n \<and> avl_inv n
           \<and> (get_height n = 1 + max (get_height l) hr
              \<or> (get_height n = 2 + max (get_height l) hr \<and> heavy_side root n))"
proof (cases "get_height l - get_height r' < - 1")
  case False
  with assms(4,5) have eq: "insert_rebalance k l r' d root
      = Inr (AVLNode k l r' (1 + max (get_height l) (get_height r')) d)"
    by (auto simp: insert_rebalance_def Let_def)
  show ?thesis
    unfolding eq using assms False by (auto simp: heavy_side_def max_def)
next
  case True
  with assms(4,5) have h: "get_height r' = get_height l + 2" "hr = get_height l + 1"
    "heavy_side root r'" by auto
  from avl_inv_height_nonneg [OF assms(1)] have lpos: "0 \<le> get_height l" .
  from h(1) lpos obtain rk rl rr rh rd where r': "r' = AVLNode rk rl rr rh rd"
    using height_pos_node [of r'] by auto
  from assms(2) r' h(1) have inv: "avl_inv rl" "avl_inv rr"
    "rh = 1 + max (get_height rl) (get_height rr)" "rh = get_height l + 2"
    "\<bar>get_height rl - get_height rr\<bar> \<le> 1" by auto
  from h(3) r' inv lpos consider
      (RR) "rk < root" "get_height rr = get_height rl + 1"
    | (RL) "root < rk" "get_height rl = get_height rr + 1"
    by (auto simp: heavy_side_def)
  then show ?thesis
  proof cases
    case RR
    with inv have hs: "get_height rr = get_height l + 1" "get_height rl = get_height l"
      by (auto simp: max_def)
    from rotate_left_avl [OF assms(1) inv(1,2) hs(1), where rk = rk and rh = rh and rd = rd
        and k = k and h = "1 + max (get_height l) (get_height r')" and d = d] hs(2)
    obtain n where n: "rotate_left (AVLNode k l (AVLNode rk rl rr rh rd)
        (1 + max (get_height l) (get_height r')) d) = Inr n" "avl_inv n"
        "get_height n = get_height l + 2" by auto
    have "insert_rebalance k l r' d root = Inr n"
      using True RR(1) n(1) r' by (simp add: insert_rebalance_def Let_def)
    with n h(2) show ?thesis by (auto simp: max_def)
  next
    case RL
    with inv have hs: "get_height rl = get_height l + 1" "get_height rr = get_height l"
      by (auto simp: max_def)
    from hs(1) lpos obtain mk ml mr mh md where rl: "rl = AVLNode mk ml mr mh md"
      using height_pos_node [of rl] by auto
    with hs(1) have mh: "mh = get_height l + 1" by simp
    from rotate_right_left_avl [OF assms(1) inv(1) [unfolded rl] inv(2) hs(2) mh,
        where rk = rk and rh = rh and rd = rd and k = k
        and h = "1 + max (get_height l) (get_height r')" and d = d]
    obtain r2 n where n: "rotate_right (AVLNode rk (AVLNode mk ml mr mh md) rr rh rd) = Inr r2"
        "rotate_left (AVLNode k l r2 (1 + max (get_height l) (get_height r')) d) = Inr n"
        "avl_inv n" "get_height n = get_height l + 2" by auto
    have "insert_rebalance k l r' d root = Inr n"
      using True RL(1) n(1,2) r' rl by (auto simp: insert_rebalance_def Let_def)
    with n h(2) show ?thesis by (auto simp: max_def)
  qed
qed

lemma insert_recursive_avl:
  "avl_inv t \<Longrightarrow>
   \<exists>t' sz'. insert_recursive t root sz = Inr (t', sz') \<and> avl_inv t'
     \<and> (get_height t' = get_height t
        \<or> (get_height t' = get_height t + 1 \<and> heavy_side root t'))"
proof (induction t)
  case NoNode
  show ?case by (simp add: heavy_side_def)
next
  case (AVLNode k l r h d)
  from AVLNode.prems have inv: "avl_inv l" "avl_inv r"
    "\<bar>get_height l - get_height r\<bar> \<le> 1" "h = 1 + max (get_height l) (get_height r)"
    by auto
  consider (lt) "root < k" | (gt) "k < root" | (eq) "root = k"
    using less_linear by blast
  then show ?case
  proof cases
    case lt
    from AVLNode.IH(1) [OF inv(1)] obtain l' sz' where
      l': "insert_recursive l root sz = Inr (l', sz')" "avl_inv l'"
          "get_height l' = get_height l
           \<or> (get_height l' = get_height l + 1 \<and> heavy_side root l')" by blast
    from insert_rebalance_left [OF l'(2) inv(2) lt l'(3) inv(3), where d = d] obtain n where
      n: "insert_rebalance k l' r d root = Inr n" "avl_inv n"
         "get_height n = 1 + max (get_height l) (get_height r)
          \<or> (get_height n = 2 + max (get_height l) (get_height r) \<and> heavy_side root n)"
      by blast
    have "insert_recursive (AVLNode k l r h d) root sz = Inr (n, sz')"
      using lt l'(1) n(1) by simp
    with n inv(4) show ?thesis by auto
  next
    case gt
    from AVLNode.IH(2) [OF inv(2)] obtain r' sz' where
      r': "insert_recursive r root sz = Inr (r', sz')" "avl_inv r'"
          "get_height r' = get_height r
           \<or> (get_height r' = get_height r + 1 \<and> heavy_side root r')" by blast
    from insert_rebalance_right [OF inv(1) r'(2) gt r'(3) inv(3), where d = d] obtain n where
      n: "insert_rebalance k l r' d root = Inr n" "avl_inv n"
         "get_height n = 1 + max (get_height l) (get_height r)
          \<or> (get_height n = 2 + max (get_height l) (get_height r) \<and> heavy_side root n)"
      by blast
    have "insert_recursive (AVLNode k l r h d) root sz = Inr (n, sz')"
      using gt r'(1) n(1) by (simp add: less_not_sym)
    with n inv(4) show ?thesis by auto
  next
    case eq
    then show ?thesis using AVLNode.prems by simp
  qed
qed

subsection \<open>The balance after a deletion\<close>

lemma get_min_node_shape:
  "r \<noteq> NoNode \<Longrightarrow> \<exists>mk mr mh md. get_min_node r = Inr (AVLNode mk NoNode mr mh md)"
  by (induction r rule: get_min_node.induct) auto

lemma delete_rebalance_avl:
  assumes "avl_inv l" "avl_inv r" "\<bar>get_height l - get_height r\<bar> \<le> 2"
  shows "\<exists>n. delete_rebalance k l r d = Inr n \<and> avl_inv n
           \<and> (get_height n = 1 + max (get_height l) (get_height r)
              \<or> (get_height n = max (get_height l) (get_height r)
                  \<and> \<bar>get_height l - get_height r\<bar> = 2))"
proof -
  consider (bal) "\<bar>get_height l - get_height r\<bar> \<le> 1"
    | (left) "get_height l = get_height r + 2"
    | (right) "get_height r = get_height l + 2"
    using assms(3) by linarith
  then show ?thesis
  proof cases
    case bal
    then have "delete_rebalance k l r d
        = Inr (AVLNode k l r (1 + max (get_height l) (get_height r)) d)"
      by (auto simp: delete_rebalance_def Let_def)
    with assms bal show ?thesis by simp
  next
    case left
    from avl_inv_height_nonneg [OF assms(2)] have rpos: "0 \<le> get_height r" .
    from left rpos obtain lk ll lr lh ld where l: "l = AVLNode lk ll lr lh ld"
      using height_pos_node [of l] by auto
    from assms(1) l left have inv: "avl_inv ll" "avl_inv lr"
      "lh = 1 + max (get_height ll) (get_height lr)" "lh = get_height r + 2"
      "\<bar>get_height ll - get_height lr\<bar> \<le> 1" by auto
    show ?thesis
    proof (cases "0 \<le> get_height ll - get_height lr")
      case True
      with inv have hs: "get_height ll = get_height r + 1"
        "get_height lr = get_height r \<or> get_height lr = get_height r + 1"
        by (auto simp: max_def)
      from rotate_right_avl [OF inv(1,2) assms(2) hs, where lk = lk and lh = lh and ld = ld
          and k = k and h = "1 + max (get_height l) (get_height r)" and d = d]
      obtain n where n: "rotate_right (AVLNode k (AVLNode lk ll lr lh ld) r
          (1 + max (get_height l) (get_height r)) d) = Inr n" "avl_inv n"
          "get_height n = get_height lr + 2" by auto
      have "delete_rebalance k l r d = Inr n"
        using True left n(1) l by (simp add: delete_rebalance_def Let_def)
      with n hs left show ?thesis by (auto simp: max_def)
    next
      case False
      with inv have hs: "get_height lr = get_height r + 1" "get_height ll = get_height r"
        by (auto simp: max_def)
      from hs(1) rpos obtain mk ml mr mh md where lr: "lr = AVLNode mk ml mr mh md"
        using height_pos_node [of lr] by auto
      with hs(1) have mh: "mh = get_height r + 1" by simp
      from rotate_left_right_avl [OF inv(1) inv(2) [unfolded lr] assms(2) hs(2) mh,
          where lk = lk and lh = lh and ld = ld and k = k
          and h = "1 + max (get_height l) (get_height r)" and d = d]
      obtain l2 n where n: "rotate_left (AVLNode lk ll (AVLNode mk ml mr mh md) lh ld) = Inr l2"
          "rotate_right (AVLNode k l2 r (1 + max (get_height l) (get_height r)) d) = Inr n"
          "avl_inv n" "get_height n = get_height r + 2" by auto
      have "delete_rebalance k l r d = Inr n"
        using False left n(1,2) l lr by (auto simp: delete_rebalance_def Let_def)
      with n left show ?thesis by (auto simp: max_def)
    qed
  next
    case right
    from avl_inv_height_nonneg [OF assms(1)] have lpos: "0 \<le> get_height l" .
    from right lpos obtain rk rl rr rh rd where r: "r = AVLNode rk rl rr rh rd"
      using height_pos_node [of r] by auto
    from assms(2) r right have inv: "avl_inv rl" "avl_inv rr"
      "rh = 1 + max (get_height rl) (get_height rr)" "rh = get_height l + 2"
      "\<bar>get_height rl - get_height rr\<bar> \<le> 1" by auto
    show ?thesis
    proof (cases "get_height rl - get_height rr \<le> 0")
      case True
      with inv have hs: "get_height rr = get_height l + 1"
        "get_height rl = get_height l \<or> get_height rl = get_height l + 1"
        by (auto simp: max_def)
      from rotate_left_avl [OF assms(1) inv(1,2) hs, where rk = rk and rh = rh and rd = rd
          and k = k and h = "1 + max (get_height l) (get_height r)" and d = d]
      obtain n where n: "rotate_left (AVLNode k l (AVLNode rk rl rr rh rd)
          (1 + max (get_height l) (get_height r)) d) = Inr n" "avl_inv n"
          "get_height n = get_height rl + 2" by auto
      have "delete_rebalance k l r d = Inr n"
        using True right n(1) r by (simp add: delete_rebalance_def Let_def)
      with n hs right show ?thesis by (auto simp: max_def)
    next
      case False
      with inv have hs: "get_height rl = get_height l + 1" "get_height rr = get_height l"
        by (auto simp: max_def)
      from hs(1) lpos obtain mk ml mr mh md where rl: "rl = AVLNode mk ml mr mh md"
        using height_pos_node [of rl] by auto
      with hs(1) have mh: "mh = get_height l + 1" by simp
      from rotate_right_left_avl [OF assms(1) inv(1) [unfolded rl] inv(2) hs(2) mh,
          where rk = rk and rh = rh and rd = rd and k = k
          and h = "1 + max (get_height l) (get_height r)" and d = d]
      obtain r2 n where n: "rotate_right (AVLNode rk (AVLNode mk ml mr mh md) rr rh rd) = Inr r2"
          "rotate_left (AVLNode k l r2 (1 + max (get_height l) (get_height r)) d) = Inr n"
          "avl_inv n" "get_height n = get_height l + 2" by auto
      have "delete_rebalance k l r d = Inr n"
        using False right n(1,2) r rl by (auto simp: delete_rebalance_def Let_def)
      with n right show ?thesis by (auto simp: max_def)
    qed
  qed
qed

lemma delete_recursive_avl:
  "avl_inv t \<Longrightarrow>
   \<exists>t' sz'. delete_recursive t root sz = Inr (t', sz') \<and> avl_inv t'
     \<and> (get_height t' = get_height t \<or> get_height t' = get_height t - 1)"
proof (induction t arbitrary: root sz)
  case NoNode
  show ?case by simp
next
  case (AVLNode k l r h d)
  from AVLNode.prems have inv: "avl_inv l" "avl_inv r"
    "\<bar>get_height l - get_height r\<bar> \<le> 1" "h = 1 + max (get_height l) (get_height r)"
    by auto
  have left: "\<exists>n. delete_rebalance k' l' r d' = Inr n \<and> avl_inv n
        \<and> (get_height n = h \<or> get_height n = h - 1)"
    if l': "avl_inv l'" "get_height l' = get_height l \<or> get_height l' = get_height l - 1"
    for l' k' d'
  proof -
    from l'(2) inv(3) have "\<bar>get_height l' - get_height r\<bar> \<le> 2" by linarith
    from delete_rebalance_avl [OF l'(1) inv(2) this, where k = k' and d = d']
    obtain n where n: "delete_rebalance k' l' r d' = Inr n" "avl_inv n"
      "get_height n = 1 + max (get_height l') (get_height r)
       \<or> (get_height n = max (get_height l') (get_height r)
           \<and> \<bar>get_height l' - get_height r\<bar> = 2)" by blast
    from n(3) l'(2) inv(3,4) have "get_height n = h \<or> get_height n = h - 1"
      by (auto simp: max_def split: if_splits)
    with n(1,2) show ?thesis by blast
  qed
  have right: "\<exists>n. delete_rebalance k' l r' d' = Inr n \<and> avl_inv n
        \<and> (get_height n = h \<or> get_height n = h - 1)"
    if r': "avl_inv r'" "get_height r' = get_height r \<or> get_height r' = get_height r - 1"
    for r' k' d'
  proof -
    from r'(2) inv(3) have "\<bar>get_height l - get_height r'\<bar> \<le> 2" by linarith
    from delete_rebalance_avl [OF inv(1) r'(1) this, where k = k' and d = d']
    obtain n where n: "delete_rebalance k' l r' d' = Inr n" "avl_inv n"
      "get_height n = 1 + max (get_height l) (get_height r')
       \<or> (get_height n = max (get_height l) (get_height r')
           \<and> \<bar>get_height l - get_height r'\<bar> = 2)" by blast
    from n(3) r'(2) inv(3,4) have "get_height n = h \<or> get_height n = h - 1"
      by (auto simp: max_def split: if_splits)
    with n(1,2) show ?thesis by blast
  qed
  consider (lt) "root < k" | (gt) "k < root" | (eq) "root = k"
    using less_linear by blast
  then show ?case
  proof cases
    case lt
    from AVLNode.IH(1) [OF inv(1), of root sz] obtain l' sz' where
      l': "delete_recursive l root sz = Inr (l', sz')" "avl_inv l'"
          "get_height l' = get_height l \<or> get_height l' = get_height l - 1" by blast
    from left [OF l'(2,3), of k d] obtain n where
      n: "delete_rebalance k l' r d = Inr n" "avl_inv n"
         "get_height n = h \<or> get_height n = h - 1" by blast
    have "delete_recursive (AVLNode k l r h d) root sz = Inr (n, sz')"
      using lt l'(1) n(1) by simp
    with n show ?thesis by auto
  next
    case gt
    from AVLNode.IH(2) [OF inv(2), of root sz] obtain r' sz' where
      r': "delete_recursive r root sz = Inr (r', sz')" "avl_inv r'"
          "get_height r' = get_height r \<or> get_height r' = get_height r - 1" by blast
    from right [OF r'(2,3), of k d] obtain n where
      n: "delete_rebalance k l r' d = Inr n" "avl_inv n"
         "get_height n = h \<or> get_height n = h - 1" by blast
    have "delete_recursive (AVLNode k l r h d) root sz = Inr (n, sz')"
      using gt r'(1) n(1) by (simp add: less_not_sym)
    with n show ?thesis by auto
  next
    case eq
    show ?thesis
    proof (cases "l = NoNode")
      case True
      with eq inv show ?thesis by (auto simp: max_def dest: avl_inv_height_nonneg)
    next
      case lnode: False
      show ?thesis
      proof (cases "r = NoNode")
        case True
        with eq lnode inv show ?thesis by (auto simp: max_def dest: avl_inv_height_nonneg)
      next
        case rnode: False
        from get_min_node_shape [OF rnode] obtain mk mr mh md where
          m: "get_min_node r = Inr (AVLNode mk NoNode mr mh md)" by blast
        from AVLNode.IH(2) [OF inv(2), of mk "sz - 1"] obtain r' sz' where
          r': "delete_recursive r mk (sz - 1) = Inr (r', sz')" "avl_inv r'"
              "get_height r' = get_height r \<or> get_height r' = get_height r - 1" by blast
        from right [OF r'(2,3), of mk md] obtain n where
          n: "delete_rebalance mk l r' md = Inr n" "avl_inv n"
             "get_height n = h \<or> get_height n = h - 1" by blast
        have "delete_recursive (AVLNode k l r h d) root sz = Inr (n, sz' + 1)"
          using eq lnode rnode m r'(1) n(1) by simp
        with n show ?thesis by auto
      qed
    qed
  qed
qed

subsection \<open>The contents of the tree\<close>

lemma keys_entries: "keys t = fst ` set (entries t)"
  by (induction t) auto

lemma bst_entries: "bst t \<longleftrightarrow> sorted_wrt (<) (map fst (entries t))"
proof (induction t)
  case NoNode
  show ?case by simp
next
  case (AVLNode k l r h d)
  show ?case
  proof
    assume b: "bst (AVLNode k l r h d)"
    then have "\<forall>x \<in> keys l. \<forall>y \<in> keys r. x < y" by (auto intro: less_trans)
    with b AVLNode show "sorted_wrt (<) (map fst (entries (AVLNode k l r h d)))"
      by (auto simp: sorted_wrt_append keys_entries)
  next
    assume "sorted_wrt (<) (map fst (entries (AVLNode k l r h d)))"
    with AVLNode show "bst (AVLNode k l r h d)"
      by (auto simp: sorted_wrt_append keys_entries)
  qed
qed

lemma entries_eq_bst: "entries a = entries b \<Longrightarrow> bst a = bst b"
  by (simp add: bst_entries)

lemma entries_eq_keys: "entries a = entries b \<Longrightarrow> keys a = keys b"
  by (simp add: keys_entries)

lemma rotate_right_entries: "rotate_right t = Inr n \<Longrightarrow> entries n = entries t"
  by (induction t rule: rotate_right.induct) (auto simp: Let_def)

lemma rotate_left_entries: "rotate_left t = Inr n \<Longrightarrow> entries n = entries t"
  by (induction t rule: rotate_left.induct) (auto simp: Let_def)

lemma insert_rebalance_entries:
  "insert_rebalance k l r d root = Inr n \<Longrightarrow> entries n = entries l @ (k, d) # entries r"
  by (auto simp: insert_rebalance_def Let_def split: if_splits node.splits sum.splits
        dest!: rotate_right_entries rotate_left_entries)

lemma delete_rebalance_entries:
  "delete_rebalance k l r d = Inr n \<Longrightarrow> entries n = entries l @ (k, d) # entries r"
  by (auto simp: delete_rebalance_def Let_def split: if_splits node.splits sum.splits
        dest!: rotate_right_entries rotate_left_entries)

lemma search_recursive_iff: "bst t \<Longrightarrow> search_recursive t x \<longleftrightarrow> x \<in> keys t"
  by (induction t) (auto dest: less_asym)

lemma in_order_recursive_entries:
  "in_order_recursive t acc = acc @ map fst (entries t)"
  by (induction t arbitrary: acc) auto

lemma filter_absent: "x \<notin> fst ` set es \<Longrightarrow> filter (\<lambda>e. fst e \<noteq> x) es = es"
  by (induction es) auto

lemma insert_recursive_bst:
  "bst t \<Longrightarrow> insert_recursive t root sz = Inr (t', sz') \<Longrightarrow>
   bst t' \<and> keys t' = insert root (keys t)
   \<and> sz' = (if root \<in> keys t then sz else sz + 1)"
proof (induction t arbitrary: t' sz')
  case NoNode
  then show ?case by auto
next
  case (AVLNode k l r h d)
  from AVLNode.prems(1) have b: "bst l" "bst r" "\<forall>x \<in> keys l. x < k" "\<forall>x \<in> keys r. k < x"
    by auto
  consider (lt) "root < k" | (gt) "k < root" | (eq) "root = k"
    using less_linear by blast
  then show ?case
  proof cases
    case lt
    with AVLNode.prems(2) obtain l' where
      l': "insert_recursive l root sz = Inr (l', sz')"
          "insert_rebalance k l' r d root = Inr t'"
      by (auto split: sum.splits)
    from AVLNode.IH(1) [OF b(1) l'(1)] have ih: "bst l'" "keys l' = insert root (keys l)"
      "sz' = (if root \<in> keys l then sz else sz + 1)" by auto
    from insert_rebalance_entries [OF l'(2)]
    have e: "entries t' = entries (AVLNode k l' r h d)" by simp
    from ih(1,2) b lt have "bst (AVLNode k l' r h d)" by auto
    with entries_eq_bst [OF e] have "bst t'" by simp
    moreover from entries_eq_keys [OF e] ih(2)
    have "keys t' = insert root (keys (AVLNode k l r h d))" by auto
    moreover from lt b(4) have "root \<in> keys (AVLNode k l r h d) \<longleftrightarrow> root \<in> keys l"
      by (auto dest: less_asym)
    ultimately show ?thesis using ih(3) by simp
  next
    case gt
    then have ngt: "\<not> root < k" by (simp add: less_not_sym)
    with gt AVLNode.prems(2) obtain r' where
      r': "insert_recursive r root sz = Inr (r', sz')"
          "insert_rebalance k l r' d root = Inr t'"
      by (auto split: sum.splits)
    from AVLNode.IH(2) [OF b(2) r'(1)] have ih: "bst r'" "keys r' = insert root (keys r)"
      "sz' = (if root \<in> keys r then sz else sz + 1)" by auto
    from insert_rebalance_entries [OF r'(2)]
    have e: "entries t' = entries (AVLNode k l r' h d)" by simp
    from ih(1,2) b gt have "bst (AVLNode k l r' h d)" by auto
    with entries_eq_bst [OF e] have "bst t'" by simp
    moreover from entries_eq_keys [OF e] ih(2)
    have "keys t' = insert root (keys (AVLNode k l r h d))" by auto
    moreover from gt b(3) have "root \<in> keys (AVLNode k l r h d) \<longleftrightarrow> root \<in> keys r"
      by (auto dest: less_asym)
    ultimately show ?thesis using ih(3) by simp
  next
    case eq
    with AVLNode.prems show ?thesis by auto
  qed
qed

lemma insert_recursive_present:
  "avl_inv t \<Longrightarrow> search_recursive t root \<Longrightarrow> insert_recursive t root sz = Inr (t, sz)"
proof (induction t)
  case NoNode
  then show ?case by simp
next
  case (AVLNode k l r h d)
  from AVLNode.prems(1) have inv: "avl_inv l" "avl_inv r"
    "\<bar>get_height l - get_height r\<bar> \<le> 1" "h = 1 + max (get_height l) (get_height r)"
    by auto
  from inv(3,4) have reb: "insert_rebalance k l r d root = Inr (AVLNode k l r h d)"
    by (auto simp: insert_rebalance_def Let_def)
  consider (lt) "root < k" | (gt) "k < root" | (eq) "root = k"
    using less_linear by blast
  then show ?case
  proof cases
    case lt
    with AVLNode.prems(2) have "search_recursive l root" by auto
    from AVLNode.IH(1) [OF inv(1) this] lt reb show ?thesis by simp
  next
    case gt
    then have n: "\<not> root < k" "root \<noteq> k" by (auto simp: less_not_sym)
    with AVLNode.prems(2) have "search_recursive r root" by auto
    from AVLNode.IH(2) [OF inv(2) this] gt n reb show ?thesis by simp
  next
    case eq
    then show ?thesis by simp
  qed
qed

lemma get_min_node_entries:
  "get_min_node r = Inr (AVLNode mk ml mr mh md) \<Longrightarrow>
   ml = NoNode \<and> (\<exists>rest. entries r = (mk, md) # rest)"
proof (induction r rule: get_min_node.induct)
  case 1
  then show ?case by simp
next
  case (2 k r h d)
  then show ?case by auto
next
  case (3 k lk ll lr lh ld r h d)
  then obtain rest where rest: "entries (AVLNode lk ll lr lh ld) = (mk, md) # rest"
    and ml: "ml = NoNode" by auto
  have "entries (AVLNode k (AVLNode lk ll lr lh ld) r h d)
      = entries (AVLNode lk ll lr lh ld) @ (k, d) # entries r" by simp
  also have "\<dots> = (mk, md) # (rest @ (k, d) # entries r)" unfolding rest by simp
  finally show ?case using ml by blast
qed

lemma delete_recursive_entries:
  "bst t \<Longrightarrow> delete_recursive t x sz = Inr (t', sz') \<Longrightarrow>
   entries t' = filter (\<lambda>e. fst e \<noteq> x) (entries t)
   \<and> sz' = (if x \<in> keys t then sz - 1 else sz)"
proof (induction t arbitrary: x sz t' sz')
  case NoNode
  then show ?case by auto
next
  case (AVLNode k l r h d)
  from AVLNode.prems(1) have b: "bst l" "bst r" "\<forall>y \<in> keys l. y < k" "\<forall>y \<in> keys r. k < y"
    by auto
  have fl: "filter (\<lambda>e. fst e \<noteq> k) (entries l) = entries l"
    using b(3) by (intro filter_absent) (auto simp: keys_entries [symmetric])
  have fr: "filter (\<lambda>e. fst e \<noteq> k) (entries r) = entries r"
    using b(4) by (intro filter_absent) (auto simp: keys_entries [symmetric])
  consider (lt) "x < k" | (gt) "k < x" | (eq) "x = k"
    using less_linear by blast
  then show ?case
  proof cases
    case lt
    with AVLNode.prems(2) obtain l' where
      l': "delete_recursive l x sz = Inr (l', sz')" "delete_rebalance k l' r d = Inr t'"
      by (auto split: sum.splits)
    from AVLNode.IH(1) [OF b(1) l'(1)] have ih:
      "entries l' = filter (\<lambda>e. fst e \<noteq> x) (entries l)"
      "sz' = (if x \<in> keys l then sz - 1 else sz)" by auto
    from lt b(4) have nr: "x \<notin> keys r" "x \<noteq> k" by (auto dest: less_asym)
    from nr(1) have "filter (\<lambda>e. fst e \<noteq> x) (entries r) = entries r"
      by (intro filter_absent) (simp add: keys_entries [symmetric])
    with delete_rebalance_entries [OF l'(2)] ih nr show ?thesis by auto
  next
    case gt
    then have ngt: "\<not> x < k" by (simp add: less_not_sym)
    with gt AVLNode.prems(2) obtain r' where
      r': "delete_recursive r x sz = Inr (r', sz')" "delete_rebalance k l r' d = Inr t'"
      by (auto split: sum.splits)
    from AVLNode.IH(2) [OF b(2) r'(1)] have ih:
      "entries r' = filter (\<lambda>e. fst e \<noteq> x) (entries r)"
      "sz' = (if x \<in> keys r then sz - 1 else sz)" by auto
    from gt b(3) have nl: "x \<notin> keys l" "x \<noteq> k" by (auto dest: less_asym)
    from nl(1) have "filter (\<lambda>e. fst e \<noteq> x) (entries l) = entries l"
      by (intro filter_absent) (simp add: keys_entries [symmetric])
    with delete_rebalance_entries [OF r'(2)] ih nl show ?thesis by auto
  next
    case eq
    show ?thesis
    proof (cases "l = NoNode \<or> r = NoNode")
      case True
      with eq AVLNode.prems(2) fl fr show ?thesis by (auto split: if_splits)
    next
      case False
      with eq AVLNode.prems(2) obtain mk ml mr mh md r' s' where
        m: "get_min_node r = Inr (AVLNode mk ml mr mh md)"
           "delete_recursive r mk (sz - 1) = Inr (r', s')"
           "delete_rebalance mk l r' md = Inr t'" "sz' = s' + 1"
        by (auto split: sum.splits node.splits)
      from get_min_node_entries [OF m(1)] obtain rest where
        rest: "entries r = (mk, md) # rest" by blast
      from b(2) rest have "mk \<notin> fst ` set rest" by (auto simp: bst_entries)
      then have frest: "filter (\<lambda>e. fst e \<noteq> mk) rest = rest" by (rule filter_absent)
      from rest have mkr: "mk \<in> keys r" by (simp add: keys_entries)
      from AVLNode.IH(2) [OF b(2) m(2)] rest frest mkr have ih:
        "entries r' = rest" "s' = sz - 1 - 1" by auto
      from delete_rebalance_entries [OF m(3)] ih(1) rest
      have "entries t' = entries l @ entries r" by simp
      with eq fl fr m(4) ih(2) show ?thesis by simp
    qed
  qed
qed

subsection \<open>The operations on a tree\<close>

lemma entries_filter_bst:
  "bst t \<Longrightarrow> entries t' = filter (\<lambda>e. fst e \<noteq> x) (entries t) \<Longrightarrow> bst t'"
  by (simp add: bst_entries sorted_wrt_map sorted_wrt_filter)


lemma avl_insert_inv:
  assumes "avl_inv (avl_root t)" "bst (avl_root t)"
  shows "\<exists>n. avl_insert t root
           = Inr (\<lparr>avl_root = n,
                    avl_size = (if avl_search t root then avl_size t else avl_size t + 1)\<rparr>,
                  \<not> avl_search t root,
                  ascii ''Root '' @ quoted root
                    @ (if avl_search t root then ascii '' already exists''
                       else ascii '' inserted successfully''))
         \<and> avl_inv n \<and> bst n \<and> keys n = insert root (keys (avl_root t))
         \<and> (avl_search t root \<longrightarrow> n = avl_root t)"
proof -
  from insert_recursive_avl [OF assms(1), of root "avl_size t"] obtain n sz where
    n: "insert_recursive (avl_root t) root (avl_size t) = Inr (n, sz)" "avl_inv n" by blast
  from insert_recursive_bst [OF assms(2) n(1)] have b: "bst n"
    "keys n = insert root (keys (avl_root t))"
    "sz = (if root \<in> keys (avl_root t) then avl_size t else avl_size t + 1)" by auto
  have s: "avl_search t root \<longleftrightarrow> root \<in> keys (avl_root t)"
    by (simp add: avl_search_def search_recursive_iff [OF assms(2)])
  have same: "n = avl_root t" if "avl_search t root"
    using insert_recursive_present [OF assms(1), of root "avl_size t"] that n(1)
    by (simp add: avl_search_def)
  have "avl_insert t root
           = Inr (\<lparr>avl_root = n,
                    avl_size = (if avl_search t root then avl_size t else avl_size t + 1)\<rparr>,
                  \<not> avl_search t root,
                  ascii ''Root '' @ quoted root
                    @ (if avl_search t root then ascii '' already exists''
                       else ascii '' inserted successfully''))"
    using n(1) b(3) s by (simp add: avl_insert_def)
  with n(2) b(1,2) same show ?thesis by blast
qed

lemma avl_delete_absent:
  "\<not> avl_search t root \<Longrightarrow>
   avl_delete t root = Inr (t, False, ascii ''Root '' @ quoted root @ ascii '' not found'')"
  by (simp add: avl_delete_def)

lemma avl_delete_present:
  assumes "avl_inv (avl_root t)" "bst (avl_root t)" "avl_search t root"
  shows "\<exists>n. avl_delete t root
           = Inr (\<lparr>avl_root = n, avl_size = avl_size t - 1\<rparr>, True,
                  ascii ''Root '' @ quoted root @ ascii '' deleted successfully'')
         \<and> avl_inv n \<and> bst n
         \<and> entries n = filter (\<lambda>e. fst e \<noteq> root) (entries (avl_root t))"
proof -
  from delete_recursive_avl [OF assms(1), of root "avl_size t"] obtain n sz where
    n: "delete_recursive (avl_root t) root (avl_size t) = Inr (n, sz)" "avl_inv n" by blast
  from assms(3) have k: "root \<in> keys (avl_root t)"
    by (simp add: avl_search_def search_recursive_iff [OF assms(2)])
  from delete_recursive_entries [OF assms(2) n(1)] k have e:
    "entries n = filter (\<lambda>e. fst e \<noteq> root) (entries (avl_root t))" "sz = avl_size t - 1"
    by auto
  have "avl_delete t root
           = Inr (\<lparr>avl_root = n, avl_size = avl_size t - 1\<rparr>, True,
                  ascii ''Root '' @ quoted root @ ascii '' deleted successfully'')"
    using assms(3) n(1) e(2) by (simp add: avl_delete_def)
  with n(2) entries_filter_bst [OF assms(2) e(1)] e(1) show ?thesis by blast
qed

lemma avl_apply_inv:
  assumes "avl_inv (avl_root t)" "bst (avl_root t)"
  shows "\<exists>t'. avl_apply t x = Inr t' \<and> avl_inv (avl_root t') \<and> bst (avl_root t')"
proof (cases x)
  case (AvlInsert root)
  from avl_insert_inv [OF assms, of root] show ?thesis
    unfolding AvlInsert by auto
next
  case (AvlDelete root)
  show ?thesis
  proof (cases "avl_search t root")
    case True
    from avl_delete_present [OF assms True] show ?thesis
      unfolding AvlDelete by auto
  next
    case False
    from avl_delete_absent [OF False] assms show ?thesis
      unfolding AvlDelete by simp
  qed
qed

lemma avl_run_inv:
  "avl_inv (avl_root t) \<Longrightarrow> bst (avl_root t) \<Longrightarrow>
   \<exists>t'. avl_run t xs = Inr t' \<and> avl_inv (avl_root t') \<and> bst (avl_root t')"
proof (induction xs arbitrary: t)
  case Nil
  then show ?case by simp
next
  case (Cons x xs)
  from avl_apply_inv [OF Cons.prems, of x] obtain t1 where
    t1: "avl_apply t x = Inr t1" "avl_inv (avl_root t1)" "bst (avl_root t1)" by blast
  from Cons.IH [OF t1(2,3)] t1(1) show ?case by simp
qed

lemma AVLTree_init_inv: "avl_inv (avl_root AVLTree_init) \<and> bst (avl_root AVLTree_init)"
  by (simp add: AVLTree_init_def)



lemma get_height_set [simp]: "get_height (set_derived_words t x dw) = get_height t"
  by (cases t) auto




lemma get_node_rec_sub:
  "bst t \<Longrightarrow> avl_inv t \<Longrightarrow> get_node_rec t x = AVLNode k l r h d \<Longrightarrow>
   x = k \<and> bst (AVLNode k l r h d) \<and> avl_inv (AVLNode k l r h d) \<and> search_recursive t x"
  by (induction t) (auto split: if_splits)

subsection \<open>The claims on the root index\<close>

lemma in_order_with_words_entries: "in_order_with_words t acc = acc @ entries t"
  by (induction t arbitrary: acc) auto

lemma avl_inv_subtree_height: "avl_inv t \<Longrightarrow> get_height t = subtree_height t"
  by (induction t) auto

lemma avl_inv_measured: "avl_inv t \<Longrightarrow> avl_measured t"
  by (induction t) (auto simp: avl_inv_subtree_height)

lemma apply_root_to_pattern_short:
  "length root \<noteq> 3 \<Longrightarrow> apply_root_to_pattern root pattern = []"
  by (cases "(root, pattern)" rule: apply_root_to_pattern.cases) auto

text \<open>
  C3: every finite sequence of \<open>insert\<close> and \<open>delete\<close> calls on the empty tree runs without
  an exception, and in the tree it leaves every node has children whose heights differ by
  at most one and a stored \<open>height\<close> equal to one more than the larger of them (0 for an
  absent child), whether the heights are read from the stored fields or measured on the
  tree.
\<close>

theorem C3_avl_invariant_reachable:
  "\<exists>t. avl_run AVLTree_init ops = Inr t \<and> avl_inv (avl_root t) \<and> avl_measured (avl_root t)"
proof -
  from AVLTree_init_inv have "avl_inv (avl_root AVLTree_init)" "bst (avl_root AVLTree_init)"
    by auto
  from avl_run_inv [OF this, of ops] obtain t where
    "avl_run AVLTree_init ops = Inr t" "avl_inv (avl_root t)" by blast
  with avl_inv_measured show ?thesis by blast
qed

text \<open>
  C4: in every tree reached from the empty one by \<open>insert\<close> and \<open>delete\<close> calls,
  \<open>in_order_traversal\<close> returns the keys of the tree in strictly increasing order of the
  string comparison (code point by code point), each key once.
\<close>

theorem C4_in_order_strictly_increasing:
  "\<exists>t. avl_run AVLTree_init ops = Inr t
       \<and> sorted_wrt (<) (in_order_traversal t) \<and> distinct (in_order_traversal t)
       \<and> set (in_order_traversal t) = keys (avl_root t)"
proof -
  from AVLTree_init_inv have "avl_inv (avl_root AVLTree_init)" "bst (avl_root AVLTree_init)"
    by auto
  from avl_run_inv [OF this, of ops] obtain t where
    t: "avl_run AVLTree_init ops = Inr t" "bst (avl_root t)" by blast
  from t(2) have s: "sorted_wrt (<) (in_order_traversal t)"
    by (simp add: in_order_traversal_def in_order_recursive_entries bst_entries)
  then have "distinct (in_order_traversal t)"
    by (simp add: strict_sorted_iff)
  moreover have "set (in_order_traversal t) = keys (avl_root t)"
    by (simp add: in_order_traversal_def in_order_recursive_entries keys_entries)
  ultimately show ?thesis using t(1) s by blast
qed

lemma delete_two_children:
  assumes "bst (AVLNode k l r h d)" "avl_inv (AVLNode k l r h d)"
      and "l \<noteq> NoNode" "r \<noteq> NoNode"
  shows "\<exists>mk mr mh md r' n.
           get_min_node r = Inr (AVLNode mk NoNode mr mh md)
         \<and> entries r = (mk, md) # entries r'
         \<and> delete_recursive r mk (sz - 1) = Inr (r', sz - 2)
         \<and> delete_rebalance mk l r' md = Inr n
         \<and> delete_recursive (AVLNode k l r h d) k sz = Inr (n, sz - 1)
         \<and> entries n = entries l @ (mk, md) # entries r'"
proof -
  from assms(1,2) have b: "bst r" "avl_inv r" "avl_inv l"
    "\<bar>get_height l - get_height r\<bar> \<le> 1" by auto
  from get_min_node_shape [OF assms(4)] obtain mk mr mh md where
    m: "get_min_node r = Inr (AVLNode mk NoNode mr mh md)" by blast
  from get_min_node_entries [OF m] obtain rest where
    rest: "entries r = (mk, md) # rest" by blast
  from delete_recursive_avl [OF b(2), of mk "sz - 1"] obtain r' s' where
    r': "delete_recursive r mk (sz - 1) = Inr (r', s')" "avl_inv r'"
       "get_height r' = get_height r \<or> get_height r' = get_height r - 1" by blast
  from rest have mkr: "mk \<in> keys r" by (simp add: keys_entries)
  from b(1) rest have "mk \<notin> fst ` set rest" by (auto simp: bst_entries)
  then have "filter (\<lambda>e. fst e \<noteq> mk) rest = rest" by (rule filter_absent)
  with delete_recursive_entries [OF b(1) r'(1)] rest mkr
  have e: "entries r' = rest" "s' = sz - 2" by auto
  from r'(3) b(4) have "\<bar>get_height l - get_height r'\<bar> \<le> 2" by linarith
  from delete_rebalance_avl [OF b(3) r'(2) this, where k = mk and d = md] obtain n where
    n: "delete_rebalance mk l r' md = Inr n" by blast
  have "delete_recursive (AVLNode k l r h d) k sz = Inr (n, sz - 1)"
    using assms(3,4) m r'(1) e(2) n by simp
  with m rest e r' n delete_rebalance_entries [OF n] show ?thesis by auto
qed

text \<open>
  C5: in a balanced search tree, let the node found for \<open>k\<close> have two children \<open>l\<close> and
  \<open>r\<close>.  Then \<open>_get_min_node\<close> returns the first node \<open>(mk, md)\<close> of \<open>r\<close>, the in-order successor
  of \<open>k\<close>; deleting \<open>mk\<close> from \<open>r\<close> with the count already lowered gives \<open>r'\<close>, which holds the
  entries of \<open>r\<close> without the first, and lowers the count once more; the node is rebuilt
  with key \<open>mk\<close>, dictionary \<open>md\<close>, left child \<open>l\<close> and right child \<open>r'\<close> and rebalanced, and
  the count raised again, so that \<open>_delete_recursive\<close> returns it with the count one less.
  On the whole tree \<open>delete\<close> reports success, the count is one less, and the roots with
  their dictionaries are those of before without \<open>k\<close>.
\<close>

theorem C5_delete_node_with_two_children:
  assumes "bst (avl_root T)" and "avl_inv (avl_root T)"
      and "get_node T k = AVLNode k l r h d" and "l \<noteq> NoNode" and "r \<noteq> NoNode"
  shows "\<exists>mk mr mh md r' n T'.
           get_min_node r = Inr (AVLNode mk NoNode mr mh md)
         \<and> entries r = (mk, md) # entries r'
         \<and> delete_recursive r mk (avl_size T - 1) = Inr (r', avl_size T - 2)
         \<and> delete_rebalance mk l r' md = Inr n
         \<and> delete_recursive (AVLNode k l r h d) k (avl_size T) = Inr (n, avl_size T - 1)
         \<and> entries n = entries l @ (mk, md) # entries r'
         \<and> avl_delete T k
             = Inr (T', True, ascii ''Root '' @ quoted k @ ascii '' deleted successfully'')
         \<and> avl_size T' = avl_size T - 1
         \<and> get_all_roots_with_words T'
             = filter (\<lambda>e. fst e \<noteq> k) (get_all_roots_with_words T)"
proof -
  from get_node_rec_sub [OF assms(1,2) assms(3) [unfolded get_node_def]]
  have sub: "bst (AVLNode k l r h d)" "avl_inv (AVLNode k l r h d)" "avl_search T k"
    by (auto simp: avl_search_def)
  from delete_two_children [OF sub(1,2) assms(4,5), of "avl_size T"]
  obtain mk mr mh md r' n where
    node: "get_min_node r = Inr (AVLNode mk NoNode mr mh md)"
      "entries r = (mk, md) # entries r'"
      "delete_recursive r mk (avl_size T - 1) = Inr (r', avl_size T - 2)"
      "delete_rebalance mk l r' md = Inr n"
      "delete_recursive (AVLNode k l r h d) k (avl_size T) = Inr (n, avl_size T - 1)"
      "entries n = entries l @ (mk, md) # entries r'" by blast
  from avl_delete_present [OF assms(2,1) sub(3)] obtain n' where
    tree: "avl_delete T k
        = Inr (\<lparr>avl_root = n', avl_size = avl_size T - 1\<rparr>, True,
               ascii ''Root '' @ quoted k @ ascii '' deleted successfully'')"
      "entries n' = filter (\<lambda>e. fst e \<noteq> k) (entries (avl_root T))" by blast
  show ?thesis
    apply (rule exI [of _ mk], rule exI [of _ mr], rule exI [of _ mh], rule exI [of _ md])
    apply (rule exI [of _ r'], rule exI [of _ n])
    apply (rule exI [of _ "\<lparr>avl_root = n', avl_size = avl_size T - 1\<rparr>"])
    using node tree by (simp add: get_all_roots_with_words_def in_order_with_words_entries)
qed

text \<open>
  An instance of C5: a tree of four roots, the root node with two children, whose
  successor is the left child of its right child.
\<close>

theorem C5_delete_node_with_two_children_witness:
  "let l = AVLNode [0x62F, 0x631, 0x633] NoNode NoNode 1 [];
       m = AVLNode [0x642, 0x648, 0x644] NoNode NoNode 1
             [([0x642, 0x627, 0x644], [0x641, 0x639, 0x644], 1)];
       r = AVLNode [0x643, 0x62A, 0x628] m NoNode 2
             [([0x643, 0x627, 0x62A, 0x628], [0x641, 0x627, 0x639, 0x644], 5)];
       k = [0x639, 0x644, 0x645];
       d = [([0x639, 0x627, 0x644, 0x645], [0x641, 0x627, 0x639, 0x644], 2)];
       T = \<lparr>avl_root = AVLNode k l r 3 d, avl_size = 4\<rparr>
   in bst (avl_root T) \<and> avl_inv (avl_root T)
      \<and> get_node T k = AVLNode k l r 3 d \<and> l \<noteq> NoNode \<and> r \<noteq> NoNode
      \<and> (\<exists>mk mr mh md r' n T'.
             get_min_node r = Inr (AVLNode mk NoNode mr mh md)
           \<and> entries r = (mk, md) # entries r'
           \<and> delete_recursive r mk (avl_size T - 1) = Inr (r', avl_size T - 2)
           \<and> delete_rebalance mk l r' md = Inr n
           \<and> delete_recursive (AVLNode k l r 3 d) k (avl_size T) = Inr (n, avl_size T - 1)
           \<and> entries n = entries l @ (mk, md) # entries r'
           \<and> avl_delete T k
               = Inr (T', True, ascii ''Root '' @ quoted k @ ascii '' deleted successfully'')
           \<and> avl_size T' = avl_size T - 1
           \<and> get_all_roots_with_words T'
               = filter (\<lambda>e. fst e \<noteq> k) (get_all_roots_with_words T))"
proof -
  let ?l = "AVLNode [0x62F, 0x631, 0x633] NoNode NoNode 1 []"
  let ?m = "AVLNode [0x642, 0x648, 0x644] NoNode NoNode 1
              [([0x642, 0x627, 0x644], [0x641, 0x639, 0x644], 1)]"
  let ?r = "AVLNode [0x643, 0x62A, 0x628] ?m NoNode 2
              [([0x643, 0x627, 0x62A, 0x628], [0x641, 0x627, 0x639, 0x644], 5)]"
  let ?k = "[0x639, 0x644, 0x645] :: ustr"
  let ?d = "[([0x639, 0x627, 0x644, 0x645], [0x641, 0x627, 0x639, 0x644], 2)] :: derived"
  let ?T = "\<lparr>avl_root = AVLNode ?k ?l ?r 3 ?d, avl_size = 4\<rparr>"
  have h1: "bst (avl_root ?T)" by simp
  have h2: "avl_inv (avl_root ?T)" by simp
  have h3: "get_node ?T ?k = AVLNode ?k ?l ?r 3 ?d" by (simp add: get_node_def)
  have h4: "?l \<noteq> NoNode" by simp
  have h5: "?r \<noteq> NoNode" by simp
  show ?thesis
    unfolding Let_def
    by (rule conjI [OF h1 conjI [OF h2 conjI [OF h3 conjI [OF h4 conjI [OF h5
          C5_delete_node_with_two_children [OF h1 h2 h3 h4 h5]]]]]])
qed



text \<open>
  C8: on a balanced search tree \<open>insert(r)\<close> returns without an exception and succeeds
  exactly when \<open>r\<close> was not in the tree, the count going up by one; afterwards \<open>search(r)\<close>
  is true, and a second \<open>insert(r)\<close> returns \<open>False\<close> with the message that the root already
  exists and leaves the tree, its count included, as it is.
\<close>

theorem C8_insert_then_search_and_reinsert:
  assumes "bst (avl_root t)" and "avl_inv (avl_root t)"
  shows "\<exists>t1 b m. avl_insert t r = Inr (t1, b, m)
           \<and> (b \<longleftrightarrow> \<not> avl_search t r)
           \<and> avl_search t1 r
           \<and> avl_size t1 = (if b then avl_size t + 1 else avl_size t)
           \<and> avl_insert t1 r
               = Inr (t1, False, ascii ''Root '' @ quoted r @ ascii '' already exists'')"
proof -
  from avl_insert_inv [OF assms(2,1), of r] obtain n where
    n: "avl_insert t r
          = Inr (\<lparr>avl_root = n,
                   avl_size = (if avl_search t r then avl_size t else avl_size t + 1)\<rparr>,
                 \<not> avl_search t r,
                 ascii ''Root '' @ quoted r
                   @ (if avl_search t r then ascii '' already exists''
                      else ascii '' inserted successfully''))"
       "avl_inv n" "bst n" "keys n = insert r (keys (avl_root t))" by blast
  let ?t1 = "\<lparr>avl_root = n,
               avl_size = (if avl_search t r then avl_size t else avl_size t + 1)\<rparr>"
  from n(3,4) have s: "avl_search ?t1 r"
    by (simp add: avl_search_def search_recursive_iff)
  from avl_insert_inv [of ?t1 r] n(2,3) s
  have "avl_insert ?t1 r
      = Inr (?t1, False, ascii ''Root '' @ quoted r @ ascii '' already exists'')"
    by auto
  with n(1) s show ?thesis by auto
qed

text \<open>An instance of C8: a second root inserted into a tree of one root.\<close>

theorem C8_insert_then_search_and_reinsert_witness:
  "let r = [0x639, 0x644, 0x645];
       t = \<lparr>avl_root = AVLNode [0x643, 0x62A, 0x628] NoNode NoNode 1
                         [([0x643, 0x627, 0x62A, 0x628], [0x641, 0x627, 0x639, 0x644], 5)],
            avl_size = 1\<rparr>
   in bst (avl_root t) \<and> avl_inv (avl_root t)
      \<and> (\<exists>t1 b m. avl_insert t r = Inr (t1, b, m)
             \<and> (b \<longleftrightarrow> \<not> avl_search t r)
             \<and> avl_search t1 r
             \<and> avl_size t1 = (if b then avl_size t + 1 else avl_size t)
             \<and> avl_insert t1 r
                 = Inr (t1, False, ascii ''Root '' @ quoted r @ ascii '' already exists''))"
proof -
  let ?t = "\<lparr>avl_root = AVLNode [0x643, 0x62A, 0x628] NoNode NoNode 1
                         [([0x643, 0x627, 0x62A, 0x628], [0x641, 0x627, 0x639, 0x644], 5)],
             avl_size = 1\<rparr>"
  have h1: "bst (avl_root ?t)" by simp
  have h2: "avl_inv (avl_root ?t)" by simp
  show ?thesis
    unfolding Let_def
    by (rule conjI [OF h1 conjI [OF h2 C8_insert_then_search_and_reinsert [OF h1 h2]]])
qed

text \<open>
  C2 (as stated, refuted): \<open>insert\<close> does not look at the length of the root.  The root
  kaf-ta, of two characters, is inserted into the empty tree and success is reported.
\<close>

theorem C2_insert_accepts_short_root:
  "length [0x643, 0x62A :: nat] \<noteq> 3
   \<and> avl_insert AVLTree_init [0x643, 0x62A]
       = Inr (\<lparr>avl_root = AVLNode [0x643, 0x62A] NoNode NoNode 1 [], avl_size = 1\<rparr>,
              True, ascii ''Root '' @ quoted [0x643, 0x62A] @ ascii '' inserted successfully'')"
  by (simp add: avl_insert_def AVLTree_init_def)

text \<open>
  C2 (amended): for a root whose length is not 3, \<open>update\<close> with it as the new root
  reports failure with the message on the length and leaves the tree as it is,
  \<open>apply_root_to_pattern\<close> returns the empty string, \<open>validate_word\<close> returns
  \<open>(False, None)\<close> and \<open>generate_derivatives\<close> the empty list; \<open>insert\<close> makes no length check:
  on a balanced search tree it inserts such a root like any other string, reporting
  failure only when the root is already in the tree, and the root is found afterwards.
\<close>

theorem C2_short_root_fallback:
  assumes "length root \<noteq> 3"
  shows "avl_update t old root
           = Inr (t, False, ascii ''New root must be exactly 3 characters'')
         \<and> apply_root_to_pattern root pattern = []
         \<and> validate_word w root ps = (False, None)
         \<and> generate_derivatives root ps = []
         \<and> (bst (avl_root t) \<and> avl_inv (avl_root t) \<longrightarrow>
              (\<exists>t' m. avl_insert t root = Inr (t', \<not> avl_search t root, m)
                  \<and> avl_search t' root))"
proof -
  have "\<exists>t' m. avl_insert t root = Inr (t', \<not> avl_search t root, m) \<and> avl_search t' root"
    if inv: "bst (avl_root t)" "avl_inv (avl_root t)"
  proof -
    from avl_insert_inv [OF inv(2,1), of root] obtain n where
      n: "avl_insert t root
            = Inr (\<lparr>avl_root = n,
                     avl_size = (if avl_search t root then avl_size t else avl_size t + 1)\<rparr>,
                   \<not> avl_search t root,
                   ascii ''Root '' @ quoted root
                     @ (if avl_search t root then ascii '' already exists''
                        else ascii '' inserted successfully''))"
         "bst n" "keys n = insert root (keys (avl_root t))" by blast
    from n(2,3) have "search_recursive n root" by (simp add: search_recursive_iff)
    with n(1) show ?thesis by (simp add: avl_search_def)
  qed
  with assms show ?thesis
    by (simp add: avl_update_def validate_word_def generate_derivatives_def
          apply_root_to_pattern_short)
qed

text \<open>An instance of the amended C2: the root kaf-ta on a tree of one root.\<close>

theorem C2_short_root_fallback_witness:
  "let root = [0x643, 0x62A];
       old = [0x643, 0x62A, 0x628];
       pattern = [0x641, 0x627, 0x639, 0x644];
       t = \<lparr>avl_root = AVLNode old NoNode NoNode 1 [], avl_size = 1\<rparr>
   in length root \<noteq> 3
      \<and> avl_update t old root
          = Inr (t, False, ascii ''New root must be exactly 3 characters'')
      \<and> apply_root_to_pattern root pattern = []
      \<and> validate_word [0x643, 0x627, 0x62A] root [pattern] = (False, None)
      \<and> generate_derivatives root [pattern] = []
      \<and> bst (avl_root t) \<and> avl_inv (avl_root t)
      \<and> (\<exists>t' m. avl_insert t root = Inr (t', \<not> avl_search t root, m)
             \<and> avl_search t' root)"
  using C2_short_root_fallback
          [of "[0x643, 0x62A]"
              "\<lparr>avl_root = AVLNode [0x643, 0x62A, 0x628] NoNode NoNode 1 [], avl_size = 1\<rparr>"
              "[0x643, 0x62A, 0x628]" "[0x641, 0x627, 0x639, 0x644]" "[0x643, 0x627, 0x62A]"
              "[[0x641, 0x627, 0x639, 0x644]]"]
  by (simp add: Let_def)

end
